theory Spec2Isabelle
  imports Main "HOL-Library.Word"
begin

unbundle bit_operations_syntax

section \<open>Encrypted content encoding (nodejs/ece.js): data model\<close>

text \<open>
  A Node \<open>Buffer\<close> is a list of bytes. JavaScript numbers that the code uses as sizes,
  offsets and budgets are integers here (\<open>int\<close>, or \<open>nat\<close> for counters and values
  read from a buffer), with exact arithmetic: that is the arithmetic of the code as long
  as the numbers stay within \<open>2^53\<close> in magnitude. Fractional numbers are outside the
  model.
\<close>

type_synonym byte = "8 word"
type_synonym buffer = "byte list"

text \<open>
  Everything the code can throw. The first three are thrown by the JavaScript engine
  and the Buffer API (calling a missing method, reading or writing out of range, naming
  an undeclared variable); \<open>AuthFailure\<close> is what \<open>gcm.final()\<close> throws when the tag does
  not verify; the others are the \<open>new Error(...)\<close> of the source, one constructor per
  throw statement.
\<close>

datatype error =
    TypeError
  | RangeError
  | ReferenceError
  | AuthFailure
  | NoKnownDHKey string           \<comment> \<open>'No known DH key for ' + keyid\<close>
  | NoKnownDHKeyLabel string      \<comment> \<open>'No known DH key label for ' + keyid\<close>
  | ExplicitKeyLength             \<comment> \<open>'An explicit key must be 16 bytes'\<close>
  | UnableToDetermineKey          \<comment> \<open>'Unable to determine key'\<close>
  | MustIncludeSalt               \<comment> \<open>'must include a salt parameter for ' + header.type\<close>
  | RsTooSmall int                \<comment> \<open>'The rs parameter has to be greater than ' + padSize\<close>
  | SaltRequired                  \<comment> \<open>'A salt is required'\<close>
  | SaltLength                    \<comment> \<open>'The salt parameter must be 16 bytes'\<close>
  | PaddingExceedsBlock           \<comment> \<open>'padding exceeds block size'\<close>
  | InvalidPadding                \<comment> \<open>'invalid padding'\<close>
  | TruncatedPayload              \<comment> \<open>'Truncated payload'\<close>
  | BlockTooSmall nat             \<comment> \<open>'Invalid block: too small at ' + i\<close>
  | InvalidTag                    \<comment> \<open>'invalid tag generated'\<close>
  | KeyidTooLarge                 \<comment> \<open>'keyid is too large'\<close>
  | UnableToPad int               \<comment> \<open>'Unable to pad by requested amount, ' + pad + ' remaining'\<close>

definition TAG_LENGTH :: nat where "TAG_LENGTH = 16"
definition KEY_LENGTH :: nat where "KEY_LENGTH = 16"
definition NONCE_LENGTH :: nat where "NONCE_LENGTH = 12"
definition SHA_256_LENGTH :: nat where "SHA_256_LENGTH = 32"

definition PAD_SIZE :: "string \<Rightarrow> nat option" where
  "PAD_SIZE t =
     (if t = ''aes128gcm'' then Some 2
      else if t = ''aesgcm'' then Some 2
      else if t = ''aesgcm128'' then Some 1
      else None)"

datatype mode = MODE_ENCRYPT | MODE_DECRYPT

subsection \<open>The Buffer API\<close>

text \<open>
  \<open>buf.slice(start, end)\<close>: a negative index counts from the end, every index is clamped
  to the buffer, and an end before the start gives the empty buffer.
\<close>

definition clamp_index :: "nat \<Rightarrow> int \<Rightarrow> nat" where
  "clamp_index len i = (if i < 0 then nat (int len + i) else min len (nat i))"

definition slice :: "buffer \<Rightarrow> int \<Rightarrow> int \<Rightarrow> buffer" where
  "slice b s e =
     (let s' = clamp_index (length b) s; e' = clamp_index (length b) e
      in take (e' - s') (drop s' b))"

text \<open>\<open>buf.slice(start)\<close>; an \<open>undefined\<close> start is 0.\<close>

definition slice_from :: "buffer \<Rightarrow> int option \<Rightarrow> buffer" where
  "slice_from b s = slice b (case s of None \<Rightarrow> 0 | Some s' \<Rightarrow> s') (int (length b))"

text \<open>The big-endian value of a byte string, and the \<open>n\<close> big-endian bytes of a value.\<close>

definition be_value :: "buffer \<Rightarrow> nat" where
  "be_value bs = foldl (\<lambda>a b. a * 256 + unat b) 0 bs"

fun be_bytes :: "nat \<Rightarrow> nat \<Rightarrow> buffer" where
  "be_bytes 0 v = []"
| "be_bytes (Suc n) v = be_bytes n (v div 256) @ [of_nat (v mod 256)]"

text \<open>
  \<open>buf.readUIntBE(offset, byteLength)\<close> and \<open>buf.writeUIntBE(value, offset, byteLength)\<close>
  (bounds checks on: the code never passes \<open>noAssert\<close>). Both throw a RangeError when
  the bytes are not all inside the buffer; the write also when the value does not fit
  \<open>byteLength\<close> bytes.
\<close>

definition readUIntBE :: "buffer \<Rightarrow> int \<Rightarrow> nat \<Rightarrow> error + nat" where
  "readUIntBE b off n =
     (if off < 0 \<or> int (length b) < off + int n then Inl RangeError
      else Inr (be_value (take n (drop (nat off) b))))"

definition writeUIntBE :: "buffer \<Rightarrow> int \<Rightarrow> int \<Rightarrow> nat \<Rightarrow> error + buffer" where
  "writeUIntBE b v off n =
     (if v < 0 \<or> 2 ^ (8 * n) \<le> v \<or> off < 0 \<or> int (length b) < off + int n
      then Inl RangeError
      else Inr (take (nat off) b @ be_bytes n (nat v) @ drop (nat off + n) b))"

subsection \<open>The collaborators: node's crypto and Buffer modules, urlsafe-base64\<close>

text \<open>
  A saved key is either a Buffer or an ECDH object, which has a public key and computes
  a shared secret from a peer's share.
\<close>

datatype keyval = KeyBuffer buffer | KeyECDH buffer "buffer \<Rightarrow> buffer"

text \<open>
  What reading a property of an object gives: \<open>undefined\<close>, a value of the kind the
  object was made to hold, or some other value (a function or an object of the built-in
  prototype, a number), of which only the truthiness matters.
\<close>

datatype 'a slot = Undef | Val 'a | Other bool

text \<open>
  The code calls \<open>crypto.createHmac('sha256', key)\<close>, the AES-128-GCM cipher and
  decipher, \<open>crypto.randomBytes\<close> and \<open>base64.decode\<close>. None of them is part of the
  repository, so each is a parameter of the model:
  \<^item> \<open>hmac key input\<close> is the digest;
  \<^item> \<open>gcm_encrypt key nonce plaintext\<close> is the ciphertext (of \<open>update\<close>) and the tag;
  \<^item> \<open>gcm_decrypt key nonce ciphertext tag\<close> is the plaintext, or \<open>None\<close> where
    \<open>final()\<close> throws;
  \<^item> \<open>randomBytes n\<close> is what \<open>crypto.randomBytes(n)\<close> returned in the call at hand;
  \<^item> \<open>b64decode\<close> is \<open>base64.decode\<close> on a string and \<open>buf_toString\<close> the string a
    Buffer is coerced to when it is passed where a string is expected.

  A key object or a Buffer can become the prototype of another object. What that object
  then inherits depends on the properties that node gives to Buffers and ECDH objects:
  \<^item> \<open>key_get k name\<close> and \<open>buf_get b name\<close> are what reading \<open>name\<close> gives on an object
    that has no such property of its own and inherits from \<open>k\<close> (from \<open>b\<close>), or the
    error that the read throws;
  \<^item> \<open>key_set k name v\<close> and \<open>buf_set b name v\<close> are what assigning \<open>v\<close> to \<open>name\<close> does
    on such an object: it throws, or it leaves the prototype as the returned value and
    creates the property on the object when the flag is set.
\<close>

record crypto =
  hmac :: "buffer \<Rightarrow> buffer \<Rightarrow> buffer"
  gcm_encrypt :: "buffer \<Rightarrow> buffer \<Rightarrow> buffer \<Rightarrow> buffer \<times> buffer"
  gcm_decrypt :: "buffer \<Rightarrow> buffer \<Rightarrow> buffer \<Rightarrow> buffer \<Rightarrow> buffer option"
  randomBytes :: "nat \<Rightarrow> buffer"
  b64decode :: "string \<Rightarrow> buffer"
  buf_toString :: "buffer \<Rightarrow> string"
  key_get :: "keyval \<Rightarrow> string \<Rightarrow> error + keyval slot"
  key_set :: "keyval \<Rightarrow> string \<Rightarrow> keyval \<Rightarrow> error + keyval \<times> bool"
  buf_get :: "buffer \<Rightarrow> string \<Rightarrow> error + buffer slot"
  buf_set :: "buffer \<Rightarrow> string \<Rightarrow> buffer \<Rightarrow> error + buffer \<times> bool"

subsection \<open>HKDF\<close>

definition HMAC_hash :: "crypto \<Rightarrow> buffer \<Rightarrow> buffer \<Rightarrow> buffer" where
  "HMAC_hash c key input = hmac c key input"

definition HKDF_extract :: "crypto \<Rightarrow> buffer \<Rightarrow> buffer \<Rightarrow> buffer" where
  "HKDF_extract c salt ikm = HMAC_hash c salt ikm"

text \<open>
  The loop of \<open>HKDF_expand\<close>, on its variables \<open>output\<close>, \<open>T\<close>, \<open>counter\<close> and \<open>cbuf\<close>.
  Writing the incremented counter into the one-byte \<open>cbuf\<close> throws once it passes 255,
  which is what ends the loop when the digests are too short to reach \<open>l\<close> bytes.
\<close>

function HKDF_expand_loop ::
  "crypto \<Rightarrow> buffer \<Rightarrow> buffer \<Rightarrow> int \<Rightarrow> buffer \<Rightarrow> buffer \<Rightarrow> nat \<Rightarrow> buffer \<Rightarrow> error + buffer" where
  "HKDF_expand_loop c prk info l output T counter cbuf =
     (if int (length output) < l then
        (case writeUIntBE cbuf (int (counter + 1)) 0 1 of
           Inl e \<Rightarrow> Inl e
         | Inr cbuf' \<Rightarrow>
             (let T' = HMAC_hash c prk (T @ info @ cbuf')
              in HKDF_expand_loop c prk info l (output @ T') T' (counter + 1) cbuf'))
      else Inr output)"
  by pat_completeness auto
termination
  by (relation "measure (\<lambda>(c, prk, info, l, output, T, counter, cbuf). 256 - counter)")
     (auto simp: writeUIntBE_def split: if_splits)

declare HKDF_expand_loop.simps [simp del]

definition HKDF_expand :: "crypto \<Rightarrow> buffer \<Rightarrow> buffer \<Rightarrow> int \<Rightarrow> error + buffer" where
  "HKDF_expand c prk info l =
     (case HKDF_expand_loop c prk info l [] [] 0 [0] of
        Inl e \<Rightarrow> Inl e
      | Inr output \<Rightarrow> Inr (slice output 0 l))"

definition HKDF :: "crypto \<Rightarrow> buffer \<Rightarrow> buffer \<Rightarrow> buffer \<Rightarrow> int \<Rightarrow> error + buffer" where
  "HKDF c salt ikm info len = HKDF_expand c (HKDF_extract c salt ikm) info len"

subsection \<open>Nonces\<close>

text \<open>
  \<open>ToInt32\<close> of a non-negative integer keeps its low 32 bits; \<open>^\<close> and \<open>&\<close> then work on
  those bits. \<open>m / 0x1000000\<close> is a fraction that \<open>ToInt32\<close> truncates, so on the
  non-negative numbers of this function it is \<open>div\<close>. The value after \<open>& 0xffffff\<close> has
  its sign bit clear and is read back as it stands.
\<close>

definition toInt32 :: "nat \<Rightarrow> 32 word" where
  "toInt32 v = word_of_nat v"

definition generateNonce :: "buffer \<Rightarrow> nat \<Rightarrow> error + buffer" where
  "generateNonce base counter =
     (let nonce = base in
      case readUIntBE nonce (int (length nonce) - 6) 6 of
        Inl e \<Rightarrow> Inl e
      | Inr m \<Rightarrow>
          (let x = unat ((toInt32 m XOR toInt32 counter) AND 0xffffff) +
                   unat ((toInt32 (m div 0x1000000) XOR toInt32 (counter div 0x1000000))
                         AND 0xffffff) * 0x1000000
           in writeUIntBE nonce (int x) (int (length nonce) - 6) 6))"

text \<open>The byte-wise XOR of two byte strings, position by position.\<close>

definition xor_bytes :: "buffer \<Rightarrow> buffer \<Rightarrow> buffer" where
  "xor_bytes xs ys = map (\<lambda>(x, y). x XOR y) (zip xs ys)"

subsection \<open>Info strings\<close>

text \<open>
  A JavaScript string is the list of its code units, all below 256 here.
  \<open>new Buffer(s, 'ascii')\<close> gives one byte per code unit; \<open>Buffer.from(s)\<close> encodes in
  UTF-8, with two bytes for a code unit of 128 or more.
\<close>

definition bytes_of_string :: "string \<Rightarrow> buffer" where
  "bytes_of_string s = map (\<lambda>ch. of_nat (of_char ch)) s"

definition utf8_bytes :: "string \<Rightarrow> buffer" where
  "utf8_bytes s =
     concat (map (\<lambda>ch. let n = (of_char ch :: nat)
                        in if n < 128 then [of_nat n]
                           else [of_nat (192 + n div 64), of_nat (128 + n mod 64)]) s)"

definition info :: "string \<Rightarrow> buffer \<Rightarrow> buffer" where
  "info base context' =
     bytes_of_string (''Content-Encoding: '' @ base @ [CHR 0x00]) @ context'"

definition lengthPrefix :: "buffer \<Rightarrow> error + buffer" where
  "lengthPrefix buffer' = writeUIntBE ([0, 0] @ buffer') (int (length buffer')) 0 2"

subsection \<open>The key store\<close>

text \<open>
  \<open>savedKeys\<close> and \<open>keyLabels\<close> are the two module-level objects, created as \<open>{}\<close>: plain
  objects with properties of their own and a prototype, \<open>Object.prototype\<close> at first
  (the field \<open>proto\<close> is \<open>None\<close> then). Reading \<open>obj[name]\<close> finds the object's own property
  or else what the prototype gives; \<open>__proto__\<close> reads the prototype itself. Assigning
  \<open>obj[name] = v\<close> writes an own property, except that \<open>__proto__\<close> replaces the prototype
  (the values assigned here are objects) and that an object with a replaced prototype
  leaves an assignment to a property it does not have to that prototype. The names
  below are the properties that every object inherits from \<open>Object.prototype\<close>; they are
  functions, and they can be overwritten.
\<close>

record 'a jsobject =
  own :: "string \<Rightarrow> 'a option"
  proto :: "'a option"

definition Object_prototype :: "string list" where
  "Object_prototype =
     [''constructor'', ''hasOwnProperty'', ''isPrototypeOf'', ''propertyIsEnumerable'',
      ''toLocaleString'', ''toString'', ''valueOf'', ''__defineGetter__'', ''__defineSetter__'',
      ''__lookupGetter__'', ''__lookupSetter__'']"

definition get_prop ::
  "('a \<Rightarrow> string \<Rightarrow> error + 'a slot) \<Rightarrow> 'a jsobject \<Rightarrow> string \<Rightarrow> error + 'a slot" where
  "get_prop inherited obj name =
     (if name = ''__proto__''
      then Inr (case proto obj of None \<Rightarrow> Other True | Some p \<Rightarrow> Val p)
      else case own obj name of
             Some v \<Rightarrow> Inr (Val v)
           | None \<Rightarrow>
               (case proto obj of
                  None \<Rightarrow> Inr (if name \<in> set Object_prototype then Other True else Undef)
                | Some p \<Rightarrow> inherited p name))"


text \<open>\<open>!x\<close> on what a property read gave: stored values are objects, which are truthy.\<close>

definition prop_truthy :: "'a slot \<Rightarrow> bool" where
  "prop_truthy x = (case x of Undef \<Rightarrow> False | Val _ \<Rightarrow> True | Other t \<Rightarrow> t)"

record keystore =
  savedKeys :: "keyval jsobject"
  keyLabels :: "buffer jsobject"

text \<open>
  A property name that is \<open>undefined\<close> is looked up as the string \<open>undefined\<close>; an
  \<open>undefined\<close> or empty string is falsy.
\<close>

definition prop_name :: "string option \<Rightarrow> string" where
  "prop_name k = (case k of None \<Rightarrow> ''undefined'' | Some s \<Rightarrow> s)"

definition truthy :: "string option \<Rightarrow> bool" where
  "truthy s = (case s of None \<Rightarrow> False | Some v \<Rightarrow> v \<noteq> [])"


text \<open>
  Calling \<open>getPublicKey\<close> or \<open>computeSecret\<close> on what \<open>savedKeys[keyid]\<close> gave: only an ECDH
  object has these methods.
\<close>

definition getPublicKey :: "keyval slot \<Rightarrow> error + buffer" where
  "getPublicKey k = (case k of Val (KeyECDH pub _) \<Rightarrow> Inr pub | _ \<Rightarrow> Inl TypeError)"

definition computeSecret :: "keyval slot \<Rightarrow> buffer \<Rightarrow> error + buffer" where
  "computeSecret k share = (case k of Val (KeyECDH _ f) \<Rightarrow> Inr (f share) | _ \<Rightarrow> Inl TypeError)"

text \<open>
  Passing a value to \<open>hmac.update\<close>, or as an element to \<open>Buffer.concat\<close>: only a Buffer
  is accepted.
\<close>

definition hmac_input :: "keyval slot \<Rightarrow> error + buffer" where
  "hmac_input k = (case k of Val (KeyBuffer b) \<Rightarrow> Inr b | _ \<Rightarrow> Inl TypeError)"

definition concat_input :: "buffer slot \<Rightarrow> error + buffer" where
  "concat_input l = (case l of Val b \<Rightarrow> Inr b | _ \<Rightarrow> Inl TypeError)"

subsection \<open>Parameters and headers\<close>

text \<open>
  A value that the caller may leave out, or give as a number or as a string
  (\<open>params.rs\<close>, \<open>params.pad\<close>, \<open>params.padSize\<close>).
\<close>

datatype jsvalue = Undefined | Number int | String string

record params =
  p_salt :: "string option"
  p_rs :: jsvalue
  p_key :: "string option"
  p_keyid :: "string option"
  p_dh :: "string option"
  p_authSecret :: "string option"
  p_pad :: jsvalue
  p_padSize :: jsvalue

text \<open>
  The header object that \<open>parseParams\<close> and \<open>readHeader\<close> build. Neither sets a
  \<open>len\<close> property, which \<open>decrypt\<close> reads: it is the field \<open>h_len\<close>, never defined.
\<close>

record header =
  h_type :: string
  h_salt :: "buffer option"
  h_rs :: int
  h_keyid :: "string option"
  h_key :: "buffer option"
  h_dh :: "buffer option"
  h_authSecret :: "buffer option"
  h_len :: "int option"

record secret_context =
  sc_secret :: "keyval slot"
  sc_context :: buffer

record key_nonce =
  kn_key :: buffer
  kn_nonce :: buffer

subsection \<open>Key schedule\<close>

text \<open>
  The callers pass one of the two mode constants, so the branch of \<open>extractDH\<close> for any
  other mode has no counterpart. Logging (\<open>keylog\<close>, \<open>console.warn\<close>) changes no result
  and is left out. In \<open>extractSecretAndContext\<close> the header's \<open>authSecret\<close>, a Buffer,
  is passed to \<open>base64.decode\<close>, which takes a string. The last branch of
  \<open>deriveKeyAndNonce\<close> builds its message from \<open>params.type\<close>, and \<open>params\<close> is not a
  variable of that function: in strict mode that is a ReferenceError.
\<close>

definition extractDH ::
  "crypto \<Rightarrow> keystore \<Rightarrow> string option \<Rightarrow> buffer \<Rightarrow> mode \<Rightarrow> error + secret_context" where
  "extractDH c ks keyid share mode' =
     (case get_prop (key_get c) (savedKeys ks) (prop_name keyid) of
        Inl e \<Rightarrow> Inl e
      | Inr key \<Rightarrow>
     (if \<not> prop_truthy key then Inl (NoKnownDHKey (prop_name keyid))
      else
     (case get_prop (buf_get c) (keyLabels ks) (prop_name keyid) of
        Inl e \<Rightarrow> Inl e
      | Inr label \<Rightarrow>
     (if \<not> prop_truthy label then Inl (NoKnownDHKeyLabel (prop_name keyid))
      else
     (case getPublicKey key of
        Inl e \<Rightarrow> Inl e
      | Inr pub \<Rightarrow>
     (let senderPubKey = (case mode' of MODE_ENCRYPT \<Rightarrow> pub | MODE_DECRYPT \<Rightarrow> share);
          receiverPubKey = (case mode' of MODE_ENCRYPT \<Rightarrow> share | MODE_DECRYPT \<Rightarrow> pub)
      in
     (case computeSecret key share of
        Inl e \<Rightarrow> Inl e
      | Inr sec \<Rightarrow>
     (case lengthPrefix receiverPubKey of
        Inl e \<Rightarrow> Inl e
      | Inr r \<Rightarrow>
     (case lengthPrefix senderPubKey of
        Inl e \<Rightarrow> Inl e
      | Inr s \<Rightarrow>
     (case concat_input label of
        Inl e \<Rightarrow> Inl e
      | Inr l \<Rightarrow>
          Inr \<lparr>sc_secret = Val (KeyBuffer sec), sc_context = l @ r @ s\<rparr>))))))))))"

definition extractSecretAndContext ::
  "crypto \<Rightarrow> keystore \<Rightarrow> header \<Rightarrow> mode \<Rightarrow> error + secret_context" where
  "extractSecretAndContext c ks hd' mode' =
     (case (case h_key hd' of
              Some k \<Rightarrow>
                (if length k \<noteq> KEY_LENGTH then Inl ExplicitKeyLength
                 else Inr \<lparr>sc_secret = Val (KeyBuffer k), sc_context = []\<rparr>)
            | None \<Rightarrow>
                (case h_dh hd' of
                   Some d \<Rightarrow> extractDH c ks (h_keyid hd') d mode'
                 | None \<Rightarrow>
                     (if truthy (h_keyid hd')
                      then (case get_prop (key_get c) (savedKeys ks) (prop_name (h_keyid hd')) of
                              Inl e \<Rightarrow> Inl e
                            | Inr key \<Rightarrow> Inr \<lparr>sc_secret = key, sc_context = []\<rparr>)
                      else Inr \<lparr>sc_secret = Undef, sc_context = []\<rparr>)))
      of
        Inl e \<Rightarrow> Inl e
      | Inr result \<Rightarrow>
          (if \<not> prop_truthy (sc_secret result) then Inl UnableToDetermineKey
           else
             (case h_authSecret hd' of
                None \<Rightarrow> Inr result
              | Some a \<Rightarrow>
                  (case hmac_input (sc_secret result) of
                     Inl e \<Rightarrow> Inl e
                   | Inr ikm \<Rightarrow>
                       (case HKDF c (b64decode c (buf_toString c a)) ikm (info ''auth'' [])
                               (int SHA_256_LENGTH) of
                          Inl e \<Rightarrow> Inl e
                        | Inr s \<Rightarrow> Inr (result\<lparr>sc_secret := Val (KeyBuffer s)\<rparr>))))))"

definition deriveKeyAndNonce ::
  "crypto \<Rightarrow> keystore \<Rightarrow> header \<Rightarrow> mode \<Rightarrow> error + key_nonce" where
  "deriveKeyAndNonce c ks hd' mode' =
     (case h_salt hd' of
        None \<Rightarrow> Inl MustIncludeSalt
      | Some salt \<Rightarrow>
     (case extractSecretAndContext c ks hd' mode' of
        Inl e \<Rightarrow> Inl e
      | Inr s \<Rightarrow>
     (case hmac_input (sc_secret s) of
        Inl e \<Rightarrow> Inl e
      | Inr ikm \<Rightarrow>
     (let prk = HKDF_extract c salt ikm in
     (case (if h_type hd' = ''aesgcm128''
            then Inr (bytes_of_string ''Content-Encoding: aesgcm128'',
                      bytes_of_string ''Content-Encoding: nonce'')
            else if h_type hd' = ''aesgcm''
            then Inr (info ''aesgcm'' (sc_context s), info ''nonce'' (sc_context s))
            else if h_type hd' = ''aes128gcm''
            then Inr (bytes_of_string (''Content-Encoding: aesgcm128'' @ [CHR 0x00]),
                      bytes_of_string (''Content-Encoding: nonce'' @ [CHR 0x00]))
            else Inl ReferenceError)
      of
        Inl e \<Rightarrow> Inl e
      | Inr (keyInfo, nonceInfo) \<Rightarrow>
     (case HKDF_expand c prk keyInfo (int KEY_LENGTH) of
        Inl e \<Rightarrow> Inl e
      | Inr k \<Rightarrow>
     (case HKDF_expand c prk nonceInfo (int NONCE_LENGTH) of
        Inl e \<Rightarrow> Inl e
      | Inr n \<Rightarrow> Inr \<lparr>kn_key = k, kn_nonce = n\<rparr>)))))))"

subsection \<open>Reading the parameters\<close>

text \<open>
  A number of the program is a double. The numbers that matter here have an integral
  value, and \<open>Number n\<close> is the double of value \<open>n\<close>; \<open>round_double v\<close> is the double that
  the integer \<open>v\<close> is rounded to (to the nearest one, to the even significand of 53 bits
  when two are as near), \<open>None\<close> when that is Infinity.
\<close>

fun bit_length :: "nat \<Rightarrow> nat" where
  "bit_length n = (if n = 0 then 0 else Suc (bit_length (n div 2)))"

declare bit_length.simps [simp del]

definition round_double :: "nat \<Rightarrow> nat option" where
  "round_double v =
     (if v < 2 ^ 53 then Some v
      else let e = bit_length v - 53;
               q = v div 2 ^ e;
               r = v mod 2 ^ e;
               q' = (if 2 ^ e < 2 * r \<or> (2 * r = 2 ^ e \<and> odd q) then q + 1 else q)
           in if 2 ^ 1024 \<le> q' * 2 ^ e then None else Some (q' * 2 ^ e))"

text \<open>
  \<open>parseInt\<close> first converts its argument to a string. A number of magnitude \<open>10^21\<close> or
  more is written in exponent notation, \<open>d.ddd...e+n\<close>, with the fewest digits that still
  denote that double (of two such decimals, the nearer one), and \<open>parseInt\<close> reads its
  first digit only: \<open>exp_leading_digit x\<close> is that digit.
\<close>

fun dec_length :: "nat \<Rightarrow> nat" where
  "dec_length n = (if n < 10 then 1 else Suc (dec_length (n div 10)))"

declare dec_length.simps [simp del]

definition leading_digit :: "nat \<Rightarrow> nat" where
  "leading_digit v = v div 10 ^ (dec_length v - 1)"

definition shortest_decimals :: "nat \<Rightarrow> nat \<Rightarrow> nat list" where
  "shortest_decimals x k =
     (let p = 10 ^ (dec_length x - k);
          lo = (x div p) * p;
          hi = lo + p
      in filter (\<lambda>v. round_double v = Some x) (if x - lo \<le> hi - x then [lo, hi] else [hi, lo]))"

definition exp_leading_digit :: "nat \<Rightarrow> nat" where
  "exp_leading_digit x =
     (case concat (map (shortest_decimals x) [1..<18]) of
        [] \<Rightarrow> leading_digit x
      | v # _ \<Rightarrow> leading_digit v)"

text \<open>
  \<open>parseInt(v, 10)\<close>: \<open>None\<close> is NaN. A string is a sequence of code units below 256. It
  is read after its leading white space: an optional sign, then the longest run of
  decimal digits, whose value is rounded to a double; no digit gives NaN. A run of
  digits beyond the range of the doubles gives Infinity, for which the integers have
  no value: it is written \<open>2^1024\<close>, the least integer above every double. An integral
  number below \<open>10^21\<close> in magnitude is written with all its digits and is read back as
  itself, and \<open>undefined\<close> is NaN.
\<close>

definition is_space :: "char \<Rightarrow> bool" where
  "is_space ch =
     (ch \<in> set [CHR '' '', CHR 0x09, CHR 0x0A, CHR 0x0B, CHR 0x0C, CHR 0x0D, CHR 0xA0])"

definition is_digit :: "char \<Rightarrow> bool" where
  "is_digit ch = (48 \<le> (of_char ch :: nat) \<and> (of_char ch :: nat) \<le> 57)"

definition digits_value :: "string \<Rightarrow> nat" where
  "digits_value ds = foldl (\<lambda>a d. 10 * a + (of_char d - 48)) 0 ds"

definition parse_decimal :: "string \<Rightarrow> int option" where
  "parse_decimal s =
     (let t = dropWhile is_space s;
          neg = (t \<noteq> [] \<and> hd t = CHR ''-'');
          u = (if t \<noteq> [] \<and> (hd t = CHR ''-'' \<or> hd t = CHR ''+'') then tl t else t);
          ds = takeWhile is_digit u;
          v = (case round_double (digits_value ds) of None \<Rightarrow> 2 ^ 1024 | Some d \<Rightarrow> d)
      in if ds = [] then None
         else Some (if neg then - int v else int v))"

definition parseInt :: "jsvalue \<Rightarrow> int option" where
  "parseInt v =
     (case v of
        Undefined \<Rightarrow> None
      | Number n \<Rightarrow>
          Some (if \<bar>n\<bar> < 10 ^ 21 then n else sgn n * int (exp_leading_digit (nat \<bar>n\<bar>)))
      | String s \<Rightarrow> parse_decimal s)"

definition determineRecordSize :: "jsvalue \<Rightarrow> string \<Rightarrow> error + int" where
  "determineRecordSize rs type' =
     (case parseInt rs of
        None \<Rightarrow> Inr 4096
      | Some rs' \<Rightarrow>
          (case PAD_SIZE type' of
             None \<Rightarrow> Inr rs'
           | Some padSize \<Rightarrow>
               if rs' \<le> int padSize then Inl (RsTooSmall (int padSize)) else Inr rs'))"

definition extractSalt :: "crypto \<Rightarrow> string option \<Rightarrow> error + buffer" where
  "extractSalt c salt =
     (if \<not> truthy salt then Inl SaltRequired
      else let salt' = b64decode c (the salt)
           in if length salt' \<noteq> KEY_LENGTH then Inl SaltLength else Inr salt')"

text \<open>\<open>p ? base64.decode(p) : undefined\<close>\<close>

definition decode_opt :: "crypto \<Rightarrow> string option \<Rightarrow> buffer option" where
  "decode_opt c p = (if truthy p then Some (b64decode c (the p)) else None)"

text \<open>
  \<open>readHeader\<close> is called with a Buffer and a parameter object in either order, so its
  two arguments are values of either kind. Calling \<open>readUIntBE\<close> on a parameter object
  is a TypeError (it has no such method); a property of the parameter object read from
  a Buffer is \<open>undefined\<close>.
\<close>

datatype jsarg = ArgBuffer buffer | ArgParams params

definition arg_prop :: "jsarg \<Rightarrow> (params \<Rightarrow> string option) \<Rightarrow> string option" where
  "arg_prop a f = (case a of ArgBuffer _ \<Rightarrow> None | ArgParams p \<Rightarrow> f p)"

definition readHeader :: "crypto \<Rightarrow> jsarg \<Rightarrow> jsarg \<Rightarrow> error + header" where
  "readHeader c params' buffer' =
     (case buffer' of
        ArgParams _ \<Rightarrow> Inl TypeError
      | ArgBuffer buf \<Rightarrow>
     (case readUIntBE buf 20 1 of
        Inl e \<Rightarrow> Inl e
      | Inr idsz \<Rightarrow>
     (case readUIntBE buf (int KEY_LENGTH) 4 of
        Inl e \<Rightarrow> Inl e
      | Inr rs \<Rightarrow>
          Inr \<lparr>h_type = ''aes128gcm'',
               h_salt = Some (slice buf 0 (int KEY_LENGTH)),
               h_rs = int rs,
               h_keyid = Some (buf_toString c (slice buf 21 (21 + int idsz))),
               h_key = decode_opt c (arg_prop params' p_key),
               h_dh = decode_opt c (arg_prop params' p_dh),
               h_authSecret = decode_opt c (arg_prop params' p_authSecret),
               h_len = None\<rparr>)))"

definition parseParams :: "crypto \<Rightarrow> params \<Rightarrow> error + header" where
  "parseParams c p =
     (let type' = (if p_padSize p = Number 1 then ''aesgcm128'' else ''aesgcm'') in
      case (if truthy (p_salt p) then map_sum id Some (extractSalt c (p_salt p)) else Inr None) of
        Inl e \<Rightarrow> Inl e
      | Inr salt \<Rightarrow>
     (case determineRecordSize (p_rs p) type' of
        Inl e \<Rightarrow> Inl e
      | Inr rs \<Rightarrow>
          Inr \<lparr>h_type = type',
               h_salt = salt,
               h_rs = rs,
               h_keyid = p_keyid p,
               h_key = decode_opt c (p_key p),
               h_dh = decode_opt c (p_dh p),
               h_authSecret = decode_opt c (p_authSecret p),
               h_len = None\<rparr>))"

subsection \<open>Records\<close>

definition decryptRecord :: "crypto \<Rightarrow> key_nonce \<Rightarrow> nat \<Rightarrow> buffer \<Rightarrow> header \<Rightarrow> error + buffer" where
  "decryptRecord c key counter buffer' hd' =
     (case generateNonce (kn_nonce key) counter of
        Inl e \<Rightarrow> Inl e
      | Inr nonce \<Rightarrow>
     (case gcm_decrypt c (kn_key key) nonce
             (slice buffer' 0 (int (length buffer') - int TAG_LENGTH))
             (slice_from buffer' (Some (int (length buffer') - int TAG_LENGTH))) of
        None \<Rightarrow> Inl AuthFailure
      | Some data \<Rightarrow>
     (case PAD_SIZE (h_type hd') of
        None \<Rightarrow> Inl TypeError
      | Some padSize \<Rightarrow>
     (case readUIntBE data 0 padSize of
        Inl e \<Rightarrow> Inl e
      | Inr pad \<Rightarrow>
          if pad + padSize > length data then Inl PaddingExceedsBlock
          else if replicate pad 0 \<noteq> slice data (int padSize) (int padSize + int pad)
          then Inl InvalidPadding
          else Inr (slice_from data (Some (int padSize + int pad)))))))"

text \<open>
  The padding buffer of \<open>encryptRecord\<close>: \<open>pad + padSize\<close> zero bytes (a negative size
  throws), with \<open>pad\<close> written big-endian over the first \<open>padSize\<close> of them.
\<close>

definition padding_block :: "int \<Rightarrow> nat \<Rightarrow> error + buffer" where
  "padding_block pad padSize =
     (if pad + int padSize < 0 then Inl RangeError
      else writeUIntBE (replicate (nat (pad + int padSize)) 0) pad 0 padSize)"

definition encryptRecord ::
  "crypto \<Rightarrow> key_nonce \<Rightarrow> nat \<Rightarrow> buffer \<Rightarrow> int \<Rightarrow> nat \<Rightarrow> error + buffer" where
  "encryptRecord c key counter buffer' pad padSize =
     (case generateNonce (kn_nonce key) counter of
        Inl e \<Rightarrow> Inl e
      | Inr nonce \<Rightarrow>
     (case padding_block pad padSize of
        Inl e \<Rightarrow> Inl e
      | Inr padding \<Rightarrow>
     (let (encrypted, tag) = gcm_encrypt c (kn_key key) nonce (padding @ buffer')
      in if length tag \<noteq> TAG_LENGTH then Inl InvalidTag
         else Inr (encrypted @ tag))))"

definition encodeHeader :: "header \<Rightarrow> error + buffer" where
  "encodeHeader hd' =
     (let keyid = utf8_bytes (if truthy (h_keyid hd') then the (h_keyid hd') else [])
      in if length keyid > 255 then Inl KeyidTooLarge
         else
     (case writeUIntBE (replicate 5 0) (h_rs hd') 0 4 of
        Inl e \<Rightarrow> Inl e
      | Inr ints \<Rightarrow>
     (case writeUIntBE ints (int (length keyid)) 4 1 of
        Inl e \<Rightarrow> Inl e
      | Inr ints' \<Rightarrow>
     (case h_salt hd' of
        None \<Rightarrow> Inl TypeError
      | Some salt \<Rightarrow> Inr (salt @ ints' @ keyid)))))"

subsection \<open>Framing\<close>

text \<open>The \<open>for\<close> loop of \<open>decrypt\<close>, on its variables \<open>i\<close>, \<open>start\<close> and \<open>result\<close>.\<close>

function decrypt_loop ::
  "crypto \<Rightarrow> key_nonce \<Rightarrow> header \<Rightarrow> buffer \<Rightarrow> nat \<Rightarrow> int \<Rightarrow> buffer \<Rightarrow> error + buffer" where
  "decrypt_loop c key hd' buffer' i start result =
     (if start < int (length buffer') then
        (let end' = start + h_rs hd' + int TAG_LENGTH in
         if end' = int (length buffer') then Inl TruncatedPayload
         else
           (let end'' = min end' (int (length buffer')) in
            if end'' - start \<le> int TAG_LENGTH then Inl (BlockTooSmall i)
            else
              (case decryptRecord c key i (slice buffer' start end'') hd' of
                 Inl e \<Rightarrow> Inl e
               | Inr block \<Rightarrow> decrypt_loop c key hd' buffer' (i + 1) end'' (result @ block))))
      else Inr result)"
  by pat_completeness auto
termination
  by (relation "measure (\<lambda>(c, key, hd', buffer', i, start, result). nat (int (length buffer') - start))")
     (auto simp: TAG_LENGTH_def)

declare decrypt_loop.simps [simp del]

definition decrypt :: "crypto \<Rightarrow> keystore \<Rightarrow> buffer \<Rightarrow> params \<Rightarrow> error + buffer" where
  "decrypt c ks buffer' p =
     (case (if truthy (p_salt p) then parseParams c p
            else readHeader c (ArgBuffer buffer') (ArgParams p)) of
        Inl e \<Rightarrow> Inl e
      | Inr hd' \<Rightarrow>
     (case deriveKeyAndNonce c ks hd' MODE_DECRYPT of
        Inl e \<Rightarrow> Inl e
      | Inr key \<Rightarrow> decrypt_loop c key hd' (slice_from buffer' (h_len hd')) 0 0 []))"

text \<open>
  \<open>1 << n\<close> on 32-bit integers: the shift count is taken modulo 32 and the result is
  read as a signed value.
\<close>

definition shl1 :: "nat \<Rightarrow> int" where
  "shl1 n = sint (push_bit (n mod 32) (1 :: 32 word))"

text \<open>
  The \<open>for\<close> loop of \<open>encrypt\<close>, on its variables \<open>i\<close>, \<open>start\<close>, \<open>pad\<close> and \<open>result\<close>; it
  returns the result and what is left of \<open>pad\<close>.
\<close>

function encrypt_loop ::
  "crypto \<Rightarrow> key_nonce \<Rightarrow> int \<Rightarrow> nat \<Rightarrow> buffer \<Rightarrow> nat \<Rightarrow> int \<Rightarrow> int \<Rightarrow> buffer
   \<Rightarrow> error + buffer \<times> int" where
  "encrypt_loop c key rs padSize buffer' i start pad result =
     (if start \<le> int (length buffer') then
        (let recordPad = min (shl1 (padSize * 8) - 1) (min (rs - int padSize - 1) pad);
             pad' = pad - recordPad;
             end' = min (start + rs - int padSize - recordPad) (int (length buffer'))
         in case encryptRecord c key i (slice buffer' start end') recordPad padSize of
              Inl e \<Rightarrow> Inl e
            | Inr block \<Rightarrow>
                encrypt_loop c key rs padSize buffer' (i + 1)
                  (start + (rs - int padSize - recordPad)) pad' (result @ block))
      else Inr (result, pad))"
  by pat_completeness auto
termination
  by (relation "measure (\<lambda>(c, key, rs, padSize, buffer', i, start, pad, result).
                  nat (int (length buffer') + 1 - start))")
     auto

declare encrypt_loop.simps [simp del]

text \<open>
  The loop of \<open>encrypt\<close> from its initial state, and the check on \<open>pad\<close> that follows it.
  The plaintext of \<open>encrypt\<close> is a Buffer by its type, so the first check of the
  function (\<open>Buffer.isBuffer\<close>) has no branch here.
\<close>

definition encrypt_records ::
  "crypto \<Rightarrow> key_nonce \<Rightarrow> int \<Rightarrow> nat \<Rightarrow> buffer \<Rightarrow> int \<Rightarrow> buffer \<Rightarrow> error + buffer" where
  "encrypt_records c key rs padSize buffer' pad result =
     (case encrypt_loop c key rs padSize buffer' 0 0 pad result of
        Inl e \<Rightarrow> Inl e
      | Inr (result', pad') \<Rightarrow>
          if pad' \<noteq> 0 then Inl (UnableToPad pad') else Inr result')"

definition encrypt :: "crypto \<Rightarrow> keystore \<Rightarrow> buffer \<Rightarrow> params \<Rightarrow> error + buffer" where
  "encrypt c ks buffer' p =
     (case parseParams c p of
        Inl e \<Rightarrow> Inl e
      | Inr hd0 \<Rightarrow>
     (case (if truthy (p_salt p) then Inr (hd0, [])
            else (let hd1 = hd0\<lparr>h_type := ''aes128gcm'',
                                h_salt := Some (randomBytes c KEY_LENGTH)\<rparr>
                  in map_sum id (Pair hd1) (encodeHeader hd1))) of
        Inl e \<Rightarrow> Inl e
      | Inr (hd1, result) \<Rightarrow>
     (case determineRecordSize (p_rs p) (h_type hd1) of
        Inl e \<Rightarrow> Inl e
      | Inr rs \<Rightarrow>
     (let hd2 = hd1\<lparr>h_rs := rs\<rparr> in
     (case deriveKeyAndNonce c ks hd2 MODE_ENCRYPT of
        Inl e \<Rightarrow> Inl e
      | Inr key \<Rightarrow>
     (case PAD_SIZE (h_type hd2) of
        None \<Rightarrow> Inl TypeError
      | Some padSize \<Rightarrow>
     (let pad = (case parseInt (p_pad p) of None \<Rightarrow> 0 | Some n \<Rightarrow> n)
      in encrypt_records c key (h_rs hd2) padSize buffer' pad result)))))))"

section \<open>Reference definitions\<close>

text \<open>
  HKDF-Expand as RFC 5869 and the specification state it: \<open>T(0)\<close> is empty,
  \<open>T(i) = HMAC(prk, T(i-1) || info || byte(i))\<close>, and the output is a prefix of
  \<open>T(1) || T(2) || ...\<close>; \<open>hkdf_T_concat n\<close> is \<open>T(1) || ... || T(n)\<close>.
\<close>

fun hkdf_T :: "crypto \<Rightarrow> buffer \<Rightarrow> buffer \<Rightarrow> nat \<Rightarrow> buffer" where
  "hkdf_T c prk nfo 0 = []"
| "hkdf_T c prk nfo (Suc i) = hmac c prk (hkdf_T c prk nfo i @ nfo @ [of_nat (Suc i)])"

definition hkdf_T_concat :: "crypto \<Rightarrow> buffer \<Rightarrow> buffer \<Rightarrow> nat \<Rightarrow> buffer" where
  "hkdf_T_concat c prk nfo n = concat (map (hkdf_T c prk nfo) [1..<Suc n])"

text \<open>
  The padding discipline as the specification states it: the largest pad count a record
  can declare, the pad given to a record from what is left of the budget, and, record
  by record, the budget left and the position of the plaintext cursor.
\<close>

definition maxPad :: "nat \<Rightarrow> int" where
  "maxPad padSize = 2 ^ (8 * padSize) - 1"

definition spec_recordPad :: "int \<Rightarrow> nat \<Rightarrow> int \<Rightarrow> int" where
  "spec_recordPad rs padSize budget = min (maxPad padSize) (min (rs - int padSize - 1) budget)"

fun spec_budget :: "int \<Rightarrow> nat \<Rightarrow> int \<Rightarrow> nat \<Rightarrow> int" where
  "spec_budget rs padSize pad 0 = pad"
| "spec_budget rs padSize pad (Suc k) =
     spec_budget rs padSize pad k - spec_recordPad rs padSize (spec_budget rs padSize pad k)"

fun spec_cursor :: "int \<Rightarrow> nat \<Rightarrow> int \<Rightarrow> nat \<Rightarrow> int" where
  "spec_cursor rs padSize pad 0 = 0"
| "spec_cursor rs padSize pad (Suc k) =
     spec_cursor rs padSize pad k
       + (rs - int padSize - spec_recordPad rs padSize (spec_budget rs padSize pad k))"

text \<open>
  Record \<open>k\<close> of an encryption, from those sequences: the slice of the plaintext that
  starts at the cursor and holds at most \<open>rs - padSize - recordPad\<close> bytes, encrypted
  with the record's pad under counter \<open>k\<close>.
\<close>

definition spec_slice :: "int \<Rightarrow> nat \<Rightarrow> buffer \<Rightarrow> int \<Rightarrow> nat \<Rightarrow> buffer" where
  "spec_slice rs padSize buffer' pad k =
     slice buffer' (spec_cursor rs padSize pad k)
       (min (spec_cursor rs padSize pad k + rs - int padSize
               - spec_recordPad rs padSize (spec_budget rs padSize pad k))
            (int (length buffer')))"

definition spec_record ::
  "crypto \<Rightarrow> key_nonce \<Rightarrow> int \<Rightarrow> nat \<Rightarrow> buffer \<Rightarrow> int \<Rightarrow> nat \<Rightarrow> error + buffer" where
  "spec_record c key rs padSize buffer' pad k =
     encryptRecord c key k (spec_slice rs padSize buffer' pad k)
       (spec_recordPad rs padSize (spec_budget rs padSize pad k)) padSize"

section \<open>A concrete instance of the collaborators\<close>

text \<open>
  To run the model on concrete inputs the collaborators need values. These are simple
  stand-ins with the shape of the real ones: a 32-byte digest, a length-preserving
  cipher with a 16-byte tag that its decipher checks, and the base64url alphabet
  decoded four characters to three bytes. They are not the real algorithms, and no
  general theorem below depends on them.
\<close>

definition demo_hmac :: "buffer \<Rightarrow> buffer \<Rightarrow> buffer" where
  "demo_hmac k m = take 32 (k @ m @ replicate 32 0)"

definition demo_tag :: "buffer \<Rightarrow> buffer \<Rightarrow> buffer" where
  "demo_tag k n = take 16 (n @ k @ replicate 16 0)"

definition demo_gcm_encrypt :: "buffer \<Rightarrow> buffer \<Rightarrow> buffer \<Rightarrow> buffer \<times> buffer" where
  "demo_gcm_encrypt k n p = (map (\<lambda>b. b + 1) p, demo_tag k n)"

definition demo_gcm_decrypt :: "buffer \<Rightarrow> buffer \<Rightarrow> buffer \<Rightarrow> buffer \<Rightarrow> buffer option" where
  "demo_gcm_decrypt k n ct tag =
     (if tag = demo_tag k n then Some (map (\<lambda>b. b - 1) ct) else None)"

definition b64_value :: "char \<Rightarrow> nat option" where
  "b64_value ch =
     (let n = (of_char ch :: nat) in
      if 65 \<le> n \<and> n \<le> 90 then Some (n - 65)
      else if 97 \<le> n \<and> n \<le> 122 then Some (n - 71)
      else if 48 \<le> n \<and> n \<le> 57 then Some (n + 4)
      else if ch = CHR ''-'' \<or> ch = CHR ''+'' then Some 62
      else if ch = CHR ''_'' \<or> ch = CHR ''/'' then Some 63
      else None)"

fun b64_groups :: "nat list \<Rightarrow> buffer" where
  "b64_groups (a # b # c # d # r) =
     [of_nat (a * 4 + b div 16), of_nat ((b mod 16) * 16 + c div 4), of_nat ((c mod 4) * 64 + d)]
       @ b64_groups r"
| "b64_groups [a, b, c] = [of_nat (a * 4 + b div 16), of_nat ((b mod 16) * 16 + c div 4)]"
| "b64_groups [a, b] = [of_nat (a * 4 + b div 16)]"
| "b64_groups _ = []"

definition demo_b64decode :: "string \<Rightarrow> buffer" where
  "demo_b64decode s =
     b64_groups (map (\<lambda>ch. the (b64_value ch))
                   (filter (\<lambda>ch. b64_value ch \<noteq> None) (takeWhile (\<lambda>ch. ch \<noteq> CHR ''='') s)))"

definition demo_toString :: "buffer \<Rightarrow> string" where
  "demo_toString b = map (\<lambda>x. char_of (unat x)) b"

text \<open>
  What an object inherits from a Buffer, as far as the stand-in goes: the elements under
  their indices, as numbers, and the properties of \<open>Object.prototype\<close>; an assignment
  creates the property on the object. An ECDH object gives the latter only.
\<close>

definition demo_index :: "string \<Rightarrow> nat option" where
  "demo_index name =
     (if name \<noteq> [] \<and> (\<forall>ch\<in>set name. is_digit ch) \<and> (hd name \<noteq> CHR ''0'' \<or> length name = 1)
      then Some (digits_value name) else None)"

definition demo_buf_get :: "buffer \<Rightarrow> string \<Rightarrow> error + 'a slot" where
  "demo_buf_get b name =
     (case demo_index name of
        Some i \<Rightarrow> Inr (if i < length b then Other (b ! i \<noteq> 0) else Undef)
      | None \<Rightarrow> Inr (if name \<in> set Object_prototype then Other True else Undef))"

definition demo_key_get :: "keyval \<Rightarrow> string \<Rightarrow> error + keyval slot" where
  "demo_key_get k name =
     (case k of
        KeyBuffer b \<Rightarrow> demo_buf_get b name
      | KeyECDH _ _ \<Rightarrow> Inr (if name \<in> set Object_prototype then Other True else Undef))"

definition demo_crypto :: crypto where
  "demo_crypto =
     \<lparr>hmac = demo_hmac,
      gcm_encrypt = demo_gcm_encrypt,
      gcm_decrypt = demo_gcm_decrypt,
      randomBytes = (\<lambda>n. replicate n 7),
      b64decode = demo_b64decode,
      buf_toString = demo_toString,
      key_get = demo_key_get,
      key_set = (\<lambda>k name v. Inr (k, True)),
      buf_get = demo_buf_get,
      buf_set = (\<lambda>b name v. Inr (b, True))\<rparr>"

definition empty_object :: "'a jsobject" where
  "empty_object = \<lparr>own = Map.empty, proto = None\<rparr>"

definition empty_keystore :: keystore where
  "empty_keystore = \<lparr>savedKeys = empty_object, keyLabels = empty_object\<rparr>"

definition demo_key :: key_nonce where
  "demo_key = \<lparr>kn_key = replicate 16 7, kn_nonce = replicate 12 7\<rparr>"

definition demo_header :: "string \<Rightarrow> int \<Rightarrow> header" where
  "demo_header t rs =
     \<lparr>h_type = t, h_salt = Some (replicate 16 7), h_rs = rs, h_keyid = None,
      h_key = Some (replicate 16 0), h_dh = None, h_authSecret = None, h_len = None\<rparr>"

definition demo_params :: "string option \<Rightarrow> jsvalue \<Rightarrow> jsvalue \<Rightarrow> params" where
  "demo_params salt rs pad =
     \<lparr>p_salt = salt, p_rs = rs, p_key = Some ''AAAAAAAAAAAAAAAAAAAAAA'', p_keyid = None,
      p_dh = None, p_authSecret = None, p_pad = pad, p_padSize = Undefined\<rparr>"

section \<open>Big-endian numbers and nonces\<close>

lemma prop_truthy_simps [simp]:
  "prop_truthy (Val v)" "\<not> prop_truthy Undef" "prop_truthy (Other t) = t"
  by (simp_all add: prop_truthy_def)

lemma be_value_snoc: "be_value (bs @ [b]) = be_value bs * 256 + unat b"
  by (simp add: be_value_def)

lemma be_value_lt: "be_value bs < 256 ^ length bs"
proof (induction bs rule: rev_induct)
  case Nil
  then show ?case by (simp add: be_value_def)
next
  case (snoc b bs)
  have "unat b < 256" using unsigned_less [of b] by simp
  with snoc show ?case by (simp add: be_value_snoc)
qed

lemma length_be_bytes: "length (be_bytes n v) = n"
  by (induction n arbitrary: v) auto

lemma be_bytes_be_value: "be_bytes (length bs) (be_value bs) = bs"
proof (induction bs rule: rev_induct)
  case Nil
  then show ?case by simp
next
  case (snoc b bs)
  have b: "unat b < 256" using unsigned_less [of b] by simp
  then show ?case using snoc by (simp add: be_value_snoc)
qed

lemma xor_bytes_append:
  "length xs = length ys \<Longrightarrow> xor_bytes (xs @ us) (ys @ vs) = xor_bytes xs ys @ xor_bytes us vs"
  by (simp add: xor_bytes_def)

lemma xor_div_pow: "((a::nat) XOR b) div 2 ^ k = (a div 2 ^ k) XOR (b div 2 ^ k)"
  using drop_bit_xor [of k a b] by (simp only: drop_bit_eq_div)

lemma xor_mod_pow: "((a::nat) XOR b) mod 2 ^ k = (a mod 2 ^ k) XOR (b mod 2 ^ k)"
  using take_bit_xor [of k a b] by (simp only: take_bit_eq_mod)

lemma be_bytes_xor: "be_bytes n (a XOR b) = xor_bytes (be_bytes n a) (be_bytes n b)"
proof (induction n arbitrary: a b)
  case 0
  then show ?case by (simp add: xor_bytes_def)
next
  case (Suc n)
  have d: "(a XOR b) div 256 = (a div 256) XOR (b div 256)"
    using xor_div_pow [of a b 8] by simp
  have m: "(a XOR b) mod 256 = (a mod 256) XOR (b mod 256)"
    using xor_mod_pow [of a b 8] by simp
  show ?case
    by (simp add: d m Suc xor_bytes_append length_be_bytes of_nat_xor_eq) (simp add: xor_bytes_def)
qed

lemma low24: "unat ((toInt32 a XOR toInt32 b) AND 0xffffff) = take_bit 24 (a XOR b)"
proof -
  have "(0xffffff :: 32 word) = mask 24" by (simp add: mask_eq_exp_minus_1)
  then have "(toInt32 a XOR toInt32 b) AND 0xffffff = take_bit 24 (word_of_nat (a XOR b) :: 32 word)"
    by (simp add: toInt32_def take_bit_eq_mask of_nat_xor_eq)
  then show ?thesis
    by (simp add: unsigned_take_bit_eq unsigned_of_nat take_bit_of_nat min_def)
qed

lemma nonce_arith:
  assumes "m < 2 ^ 48" "i < 2 ^ 48"
  shows "unat ((toInt32 m XOR toInt32 i) AND 0xffffff) +
         unat ((toInt32 (m div 0x1000000) XOR toInt32 (i div 0x1000000)) AND 0xffffff) * 0x1000000
         = m XOR i"
proof -
  have x: "m XOR i < 2 ^ 48" using assms
    by (metis take_bit_nat_eq_self_iff take_bit_xor)
  have "(m div 0x1000000) XOR (i div 0x1000000) = (m XOR i) div 2 ^ 24"
    using xor_div_pow [of m i 24] by simp
  moreover have "(m XOR i) div 2 ^ 24 < 2 ^ 24"
    using x by (simp add: less_mult_imp_div_less)
  ultimately have hi: "take_bit 24 ((m div 0x1000000) XOR (i div 0x1000000)) = (m XOR i) div 2 ^ 24"
    by (simp add: take_bit_nat_eq_self)
  show ?thesis
    by (simp only: low24 hi) (simp add: take_bit_eq_mod)
qed

lemma generateNonce_bytes:
  assumes "length base = 12" "i < 2 ^ 48"
  shows "generateNonce base i = Inr (take 6 base @ xor_bytes (drop 6 base) (be_bytes 6 i))"
proof -
  let ?lo = "drop 6 base"
  have len: "length ?lo = 6" using assms by simp
  have r: "readUIntBE base (int (length base) - 6) 6 = Inr (be_value ?lo)"
    using assms by (simp add: readUIntBE_def)
  have m: "be_value ?lo < 2 ^ 48" using be_value_lt [of ?lo] len by simp
  have x: "be_value ?lo XOR i < 2 ^ 48" using m assms(2)
    by (metis take_bit_nat_eq_self_iff take_bit_xor)
  have b: "be_bytes 6 (be_value ?lo XOR i) = xor_bytes ?lo (be_bytes 6 i)"
    using be_bytes_be_value [of ?lo] len by (simp only: be_bytes_xor)
  have w: "writeUIntBE base (int (be_value ?lo XOR i)) (int (length base) - 6) 6
           = Inr (take 6 base @ be_bytes 6 (be_value ?lo XOR i))"
    using assms x by (simp add: writeUIntBE_def)
  show ?thesis
    unfolding generateNonce_def Let_def r sum.case nonce_arith [OF m assms(2)] w b ..
qed

text \<open>
  Claim C3. For a 12-byte nonce base and a record counter \<open>i < 2^48\<close>, \<open>generateNonce\<close>
  returns the base with its first 6 bytes unchanged and its last 6 bytes XORed, byte by
  byte, with the 6-byte big-endian encoding of \<open>i\<close>: the arithmetic on two 24-bit
  halves is that XOR.
\<close>

theorem generateNonce_xor:
  assumes "length base = 12" and "i < 2 ^ 48"
  shows "generateNonce base i = Inr (take 6 base @ xor_bytes (drop 6 base) (be_bytes 6 i))"
  using assms by (rule generateNonce_bytes)

theorem generateNonce_xor_witness:
  "length [1, 2, 3, 4, 5, 6, 7, 8, 9, 10, 11, 12 :: byte] = 12 \<and> (258 :: nat) < 2 ^ 48 \<and>
   generateNonce [1, 2, 3, 4, 5, 6, 7, 8, 9, 10, 11, 12] 258
     = Inr [1, 2, 3, 4, 5, 6, 7, 8, 9, 10, 10, 14]"
proof -
  have h1: "length [1, 2, 3, 4, 5, 6, 7, 8, 9, 10, 11, 12 :: byte] = 12" by simp
  have h2: "(258 :: nat) < 2 ^ 48" by simp
  have b: "be_bytes 6 258 = [0, 0, 0, 0, 1, 2]" by code_simp
  show ?thesis
    using generateNonce_xor [OF h1 h2] by (simp add: b xor_bytes_def)
qed

section \<open>HKDF-Expand\<close>

lemma hkdf_T_concat_Suc:
  "hkdf_T_concat c prk nfo (Suc n) = hkdf_T_concat c prk nfo n @ hkdf_T c prk nfo (Suc n)"
  by (simp add: hkdf_T_concat_def)

lemma length_hkdf_T_concat:
  assumes "\<forall>k m. length (hmac c k m) = 32"
  shows "length (hkdf_T_concat c prk nfo n) = 32 * n"
proof (induction n)
  case 0
  show ?case by (simp add: hkdf_T_concat_def)
next
  case (Suc n)
  then show ?case using assms by (simp add: hkdf_T_concat_Suc)
qed

lemma hkdf_T_concat_prefix:
  "n \<le> m \<Longrightarrow> \<exists>r. hkdf_T_concat c prk nfo m = hkdf_T_concat c prk nfo n @ r"
proof (induction m)
  case 0
  then show ?case by simp
next
  case (Suc m)
  show ?case
  proof (cases "n = Suc m")
    case True
    then show ?thesis by simp
  next
    case False
    with Suc obtain r where "hkdf_T_concat c prk nfo m = hkdf_T_concat c prk nfo n @ r"
      by auto
    then show ?thesis by (simp add: hkdf_T_concat_Suc)
  qed
qed

lemma take_hkdf_T_concat:
  assumes hm: "\<forall>k m. length (hmac c k m) = 32"
    and "l \<le> 32 * n" "l \<le> 32 * m"
  shows "take l (hkdf_T_concat c prk nfo n) = take l (hkdf_T_concat c prk nfo m)"
proof -
  have le: "take l (hkdf_T_concat c prk nfo a) = take l (hkdf_T_concat c prk nfo b)"
    if "a \<le> b" "l \<le> 32 * a" for a b
  proof -
    from hkdf_T_concat_prefix [OF that(1)] obtain r
      where "hkdf_T_concat c prk nfo b = hkdf_T_concat c prk nfo a @ r" by blast
    then show ?thesis using that(2) length_hkdf_T_concat [OF hm, of prk nfo a] by simp
  qed
  show ?thesis
  proof (cases "n \<le> m")
    case True
    then show ?thesis using le assms by blast
  next
    case False
    then have "m \<le> n" by simp
    then show ?thesis using le [of m n] assms by simp
  qed
qed

lemma write_counter: "k < 255 \<Longrightarrow> writeUIntBE [b] (int (k + 1)) 0 1 = Inr [of_nat (Suc k)]"
  by (simp add: writeUIntBE_def)

lemma HKDF_expand_loop_spec:
  assumes hm: "\<forall>k m. length (hmac c k m) = 32" and l: "l \<le> 255 * 32"
  shows "d = 255 - k \<Longrightarrow> k \<le> 255 \<Longrightarrow>
         \<exists>n. HKDF_expand_loop c prk nfo l (hkdf_T_concat c prk nfo k) (hkdf_T c prk nfo k) k [of_nat k]
               = Inr (hkdf_T_concat c prk nfo n) \<and> l \<le> 32 * int n"
proof (induction d arbitrary: k)
  case 0
  then have k: "k = 255" by simp
  have "\<not> int (length (hkdf_T_concat c prk nfo k)) < l"
    using l by (simp add: length_hkdf_T_concat [OF hm] k)
  then show ?case
    using l k by (subst HKDF_expand_loop.simps) (auto simp: length_hkdf_T_concat [OF hm])
next
  case (Suc d)
  then have k: "k < 255" by simp
  show ?case
  proof (cases "int (length (hkdf_T_concat c prk nfo k)) < l")
    case False
    then show ?thesis
      by (subst HKDF_expand_loop.simps) (auto simp: length_hkdf_T_concat [OF hm] intro!: exI [of _ k])
  next
    case True
    have "d = 255 - Suc k" "Suc k \<le> 255" using Suc.prems by simp_all
    from Suc.IH [OF this] obtain n where
      n: "HKDF_expand_loop c prk nfo l (hkdf_T_concat c prk nfo (Suc k)) (hkdf_T c prk nfo (Suc k))
            (Suc k) [of_nat (Suc k)] = Inr (hkdf_T_concat c prk nfo n)" "l \<le> 32 * int n"
      by blast
    have "HKDF_expand_loop c prk nfo l (hkdf_T_concat c prk nfo k) (hkdf_T c prk nfo k) k [of_nat k]
        = HKDF_expand_loop c prk nfo l (hkdf_T_concat c prk nfo (Suc k)) (hkdf_T c prk nfo (Suc k))
            (Suc k) [of_nat (Suc k)]"
      using True
      apply (subst HKDF_expand_loop.simps)
      apply (simp only: True if_True write_counter [OF k] sum.case Let_def HMAC_hash_def)
      apply (simp add: hkdf_T_concat_Suc)
      done
    with n show ?thesis by auto
  qed
qed

lemma HKDF_expand_prefix:
  assumes hm: "\<forall>k m. length (hmac c k m) = 32"
    and l: "0 \<le> l" "l \<le> 255 * 32" and n: "l \<le> 32 * int n"
  shows "HKDF_expand c prk nfo l = Inr (take (nat l) (hkdf_T_concat c prk nfo n))"
proof -
  from HKDF_expand_loop_spec [OF hm l(2), of 255 0 prk nfo] obtain m where
    m: "HKDF_expand_loop c prk nfo l [] [] 0 [0] = Inr (hkdf_T_concat c prk nfo m)"
       "l \<le> 32 * int m"
    by (auto simp: hkdf_T_concat_def)
  have "slice (hkdf_T_concat c prk nfo m) 0 l = take (nat l) (hkdf_T_concat c prk nfo m)"
    using l(1) m(2) by (simp add: slice_def clamp_index_def length_hkdf_T_concat [OF hm] min_def)
  also have "\<dots> = take (nat l) (hkdf_T_concat c prk nfo n)"
    using take_hkdf_T_concat [OF hm, of "nat l" m n prk nfo] l(1) m(2) n by simp
  finally show ?thesis by (simp add: HKDF_expand_def m(1))
qed

text \<open>
  Claim C8. With a 32-byte digest, for every \<open>prk\<close>, every \<open>info\<close> and every \<open>L\<close> from 0 to
  \<open>255 * 32\<close>, \<open>HKDF_expand\<close> returns the first \<open>L\<close> bytes of \<open>T(1) || T(2) || ...\<close>, taken from
  any prefix \<open>T(1) || ... || T(n)\<close> that is long enough.
\<close>

theorem HKDF_expand_spec:
  assumes "\<forall>k m. length (hmac c k m) = 32"
    and "0 \<le> l" and "l \<le> 255 * 32" and "l \<le> 32 * int n"
  shows "HKDF_expand c prk nfo l = Inr (take (nat l) (hkdf_T_concat c prk nfo n))"
  using assms by (rule HKDF_expand_prefix)

lemma length_demo_hmac: "length (demo_hmac k m) = 32"
  by (auto simp: demo_hmac_def min_def)

theorem HKDF_expand_spec_witness:
  "(\<forall>k m. length (hmac demo_crypto k m) = 32) \<and>
   HKDF_expand demo_crypto [1, 2] [3] 40 = Inr (take 40 (hkdf_T_concat demo_crypto [1, 2] [3] 2))"
proof -
  have h: "\<forall>k m. length (hmac demo_crypto k m) = 32"
    by (simp add: demo_crypto_def length_demo_hmac)
  show ?thesis
    using h HKDF_expand_spec [OF h, of 40 2 "[1, 2]" "[3]"] by simp
qed

section \<open>Buffers, records and the key store\<close>

lemma slice_nonneg:
  "0 \<le> s \<Longrightarrow> 0 \<le> e \<Longrightarrow>
   slice b s e = take (min (length b) (nat e) - min (length b) (nat s)) (drop (min (length b) (nat s)) b)"
  by (simp add: slice_def clamp_index_def Let_def)

lemma slice_inside:
  "0 \<le> s \<Longrightarrow> s \<le> e \<Longrightarrow> e \<le> int (length b) \<Longrightarrow>
   slice b s e = take (nat e - nat s) (drop (nat s) b)"
  by (simp add: slice_nonneg min_def)

lemma slice_from_nonneg: "0 \<le> s \<Longrightarrow> slice_from b (Some s) = drop (nat s) b"
  by (auto simp: slice_from_def slice_nonneg min_def)

lemma slice_from_None: "slice_from b None = b"
  by (simp add: slice_from_def slice_def clamp_index_def)

lemma zeros_iff: "length xs = n \<Longrightarrow> (replicate n 0 \<noteq> xs) = (\<exists>b\<in>set xs. b \<noteq> (0::byte))"
  by (metis replicate_length_same in_set_replicate)

lemma decryptRecord_cases:
  assumes "generateNonce (kn_nonce key) counter = Inr nonce"
    and "gcm_decrypt c (kn_key key) nonce
           (slice buffer 0 (int (length buffer) - int TAG_LENGTH))
           (slice_from buffer (Some (int (length buffer) - int TAG_LENGTH))) = Some data"
    and "PAD_SIZE (h_type hdr) = Some padSize"
  shows "decryptRecord c key counter buffer hdr =
     (if length data < padSize then Inl RangeError
      else let pad = be_value (take padSize data) in
        if length data < pad + padSize then Inl PaddingExceedsBlock
        else if \<exists>b\<in>set (take pad (drop padSize data)). b \<noteq> 0 then Inl InvalidPadding
        else Inr (drop (padSize + pad) data))"
proof (cases "length data < padSize")
  case True
  then show ?thesis using assms by (simp add: decryptRecord_def readUIntBE_def)
next
  case False
  define pad where "pad = be_value (take padSize data)"
  have r: "readUIntBE data 0 padSize = Inr pad"
    using False by (simp add: readUIntBE_def pad_def)
  show ?thesis
  proof (cases "length data < pad + padSize")
    case True
    then show ?thesis using assms False r
      by (simp add: decryptRecord_def Let_def flip: pad_def)
  next
    case fits: False
    have s: "slice data (int padSize) (int padSize + int pad) = take pad (drop padSize data)"
      using fits by (simp add: slice_inside nat_add_distrib)
    have l: "length (take pad (drop padSize data)) = pad" using fits by simp
    show ?thesis using assms False r fits
      by (simp add: decryptRecord_def Let_def s zeros_iff [OF l] slice_from_nonneg nat_add_distrib
               flip: pad_def)
  qed
qed

lemma decrypt_loop_cases:
  assumes "start < int (length buffer)"
  shows "(start + h_rs hdr + 16 = int (length buffer) \<longrightarrow>
            decrypt_loop c key hdr buffer i start result = Inl TruncatedPayload) \<and>
         (int (length buffer) < start + h_rs hdr + 16 \<and> int (length buffer) - start \<le> 16 \<longrightarrow>
            decrypt_loop c key hdr buffer i start result = Inl (BlockTooSmall i)) \<and>
         (int (length buffer) < start + h_rs hdr + 16 \<and> 16 < int (length buffer) - start \<longrightarrow>
            decrypt_loop c key hdr buffer i start result =
              (case decryptRecord c key i (slice buffer start (int (length buffer))) hdr of
                 Inl e \<Rightarrow> Inl e
               | Inr block \<Rightarrow> Inr (result @ block)))"
proof -
  have stop: "decrypt_loop c key hdr buffer j (int (length buffer)) r = Inr r" for j r
    by (subst decrypt_loop.simps) simp
  show ?thesis using assms
    by (subst (1 2 3) decrypt_loop.simps)
       (auto simp: TAG_LENGTH_def Let_def min_def stop split: sum.splits)
qed















lemma determineRecordSize_cases:
  assumes "PAD_SIZE t = Some padSize"
  shows "determineRecordSize rs t =
           (case parseInt rs of
              None \<Rightarrow> Inr 4096
            | Some n \<Rightarrow> if n \<le> int padSize then Inl (RsTooSmall (int padSize)) else Inr n)"
  using assms by (simp add: determineRecordSize_def split: option.splits)

lemma HKDF_expand_one:
  assumes "\<forall>k m. length (hmac c k m) = 32" and "0 \<le> l" and "l \<le> 32"
  shows "HKDF_expand c prk nfo l = Inr (take (nat l) (hmac c prk (nfo @ [1])))"
  using HKDF_expand_prefix [OF assms(1) assms(2), of 1 prk nfo] assms(3)
  by (simp add: hkdf_T_concat_def)


lemma masked24: "unat ((w :: 32 word) AND 0xffffff) < 2 ^ 24"
proof -
  have "(0xffffff :: 32 word) = mask 24" by (simp add: mask_eq_exp_minus_1)
  then have "w AND 0xffffff = take_bit 24 w" by (simp add: take_bit_eq_mask)
  moreover have "take_bit 24 (unat w) < 2 ^ 24" by (rule take_bit_nat_less_exp)
  ultimately show ?thesis by (simp add: unsigned_take_bit_eq)
qed

lemma generateNonce_ok:
  assumes "6 \<le> length base"
  shows "\<exists>n. generateNonce base i = Inr n \<and> length n = length base"
proof -
  obtain m where r: "readUIntBE base (int (length base) - 6) 6 = Inr m"
    using assms by (simp add: readUIntBE_def)
  define x where "x = unat ((toInt32 m XOR toInt32 i) AND 0xffffff) +
      unat ((toInt32 (m div 0x1000000) XOR toInt32 (i div 0x1000000)) AND 0xffffff) * 0x1000000"
  have "x < 2 ^ 48"
    using masked24 [of "toInt32 m XOR toInt32 i"]
      masked24 [of "toInt32 (m div 0x1000000) XOR toInt32 (i div 0x1000000)"]
    by (simp add: x_def)
  then have w: "writeUIntBE base (int x) (int (length base) - 6) 6
      = Inr (take (length base - 6) base @ be_bytes 6 x @ drop (length base) base)"
    using assms by (simp add: writeUIntBE_def nat_diff_distrib)
  have "generateNonce base i = writeUIntBE base (int x) (int (length base) - 6) 6"
    by (simp add: generateNonce_def r Let_def x_def)
  then show ?thesis using assms by (simp add: w length_be_bytes)
qed

lemma padding_block_ok:
  assumes "0 \<le> pad" and "pad < 2 ^ (8 * padSize)"
  shows "padding_block pad padSize = Inr (be_bytes padSize (nat pad) @ replicate (nat pad) 0)"
  using assms by (simp add: padding_block_def writeUIntBE_def nat_add_distrib flip: replicate_add)

lemma shl1_pad: "padSize = 1 \<or> padSize = 2 \<Longrightarrow> shl1 (padSize * 8) - 1 = maxPad padSize"
  by (auto simp: shl1_def maxPad_def)

lemma PAD_SIZE_cases: "PAD_SIZE t = Some padSize \<Longrightarrow> padSize = 1 \<or> padSize = 2"
  by (auto simp: PAD_SIZE_def split: if_splits)

lemma determineRecordSize_above:
  assumes "PAD_SIZE t = Some padSize" and "determineRecordSize rs t = Inr n"
  shows "int padSize < n"
  using assms PAD_SIZE_cases [OF assms(1)]
  by (auto simp: determineRecordSize_cases [OF assms(1)] split: option.splits if_splits)

lemma spec_budget_nonneg:
  assumes "0 \<le> pad" and "int padSize < rs"
  shows "0 \<le> spec_budget rs padSize pad k"
proof (induction k)
  case 0
  then show ?case using assms by simp
next
  case (Suc k)
  then show ?case by (simp add: spec_recordPad_def)
qed

lemma spec_recordPad_bounds:
  assumes "0 \<le> b" and "int padSize < rs"
  shows "0 \<le> spec_recordPad rs padSize b"
    and "spec_recordPad rs padSize b < 2 ^ (8 * padSize)"
    and "spec_recordPad rs padSize b \<le> rs - int padSize - 1"
    and "spec_recordPad rs padSize b \<le> b"
  using assms by (simp_all add: spec_recordPad_def maxPad_def)


lemma encryptRecord_ok:
  assumes "generateNonce (kn_nonce key) i = Inr n"
    and "\<forall>k n p. length (snd (gcm_encrypt c k n p)) = 16"
    and "0 \<le> pad" and "pad < 2 ^ (8 * padSize)"
  shows "encryptRecord c key i data pad padSize =
     Inr (fst (gcm_encrypt c (kn_key key) n (be_bytes padSize (nat pad) @ replicate (nat pad) 0 @ data))
          @ snd (gcm_encrypt c (kn_key key) n (be_bytes padSize (nat pad) @ replicate (nat pad) 0 @ data)))"
  using assms
  by (simp add: encryptRecord_def padding_block_ok TAG_LENGTH_def split_beta)

lemma spec_record_ok:
  assumes "padSize = 1 \<or> padSize = 2" and "int padSize < rs" and "0 \<le> pad"
    and "6 \<le> length (kn_nonce key)"
    and "\<forall>k n p. length (snd (gcm_encrypt c k n p)) = 16"
  shows "\<exists>r. spec_record c key rs padSize buffer pad k = Inr r"
proof -
  obtain n where n: "generateNonce (kn_nonce key) k = Inr n"
    using generateNonce_ok [OF assms(4)] by blast
  have b: "0 \<le> spec_budget rs padSize pad k"
    using assms(3,2) by (rule spec_budget_nonneg)
  show ?thesis
    unfolding spec_record_def
    using encryptRecord_ok [OF n assms(5) spec_recordPad_bounds(1,2) [OF b assms(2)]] by blast
qed

lemma spec_cursor_step:
  assumes "int padSize < rs" and "0 \<le> pad"
  shows "spec_cursor rs padSize pad k < spec_cursor rs padSize pad (Suc k)"
  using spec_recordPad_bounds(3) [OF spec_budget_nonneg [OF assms(2,1)] assms(1), of k] by simp

lemma encrypt_loop_trace:
  assumes ps: "padSize = 1 \<or> padSize = 2" and rs: "int padSize < rs" and pad: "0 \<le> pad"
    and nonce: "6 \<le> length (kn_nonce key)"
    and tag: "\<forall>k n p. length (snd (gcm_encrypt c k n p)) = 16"
  shows "\<exists>n\<ge>i. (\<forall>k. i \<le> k \<and> k < n \<longrightarrow> spec_cursor rs padSize pad k \<le> int (length buffer)) \<and>
           int (length buffer) < spec_cursor rs padSize pad n \<and>
           encrypt_loop c key rs padSize buffer i (spec_cursor rs padSize pad i)
               (spec_budget rs padSize pad i) result
             = Inr (result @ concat (map (\<lambda>k. projr (spec_record c key rs padSize buffer pad k)) [i..<n]),
                    spec_budget rs padSize pad n)"
proof (induction "nat (int (length buffer) + 1 - spec_cursor rs padSize pad i)"
        arbitrary: i result rule: less_induct)
  case less
  let ?cur = "spec_cursor rs padSize pad" and ?bud = "spec_budget rs padSize pad"
  show ?case
  proof (cases "?cur i \<le> int (length buffer)")
    case False
    then have "encrypt_loop c key rs padSize buffer i (?cur i) (?bud i) result = Inr (result, ?bud i)"
      by (subst encrypt_loop.simps) simp
    with False show ?thesis by (intro exI [of _ i]) simp
  next
    case True
    obtain r where r: "spec_record c key rs padSize buffer pad i = Inr r"
      using spec_record_ok [OF ps rs pad nonce tag] by blast
    have step: "encrypt_loop c key rs padSize buffer i (?cur i) (?bud i) result
        = encrypt_loop c key rs padSize buffer (Suc i) (?cur (Suc i)) (?bud (Suc i)) (result @ r)"
      using True r
      by (subst encrypt_loop.simps)
         (simp add: Let_def shl1_pad [OF ps] spec_record_def spec_slice_def
                    flip: spec_recordPad_def)
    have "nat (int (length buffer) + 1 - ?cur (Suc i)) < nat (int (length buffer) + 1 - ?cur i)"
      using spec_cursor_step [OF rs pad, of i] True by linarith
    from less [OF this, of "result @ r"] obtain n where n: "Suc i \<le> n"
      "\<forall>k. Suc i \<le> k \<and> k < n \<longrightarrow> ?cur k \<le> int (length buffer)"
      "int (length buffer) < ?cur n"
      "encrypt_loop c key rs padSize buffer (Suc i) (?cur (Suc i)) (?bud (Suc i)) (result @ r)
         = Inr ((result @ r) @ concat (map (\<lambda>k. projr (spec_record c key rs padSize buffer pad k)) [Suc i..<n]),
                ?bud n)"
      by blast
    have "[i..<n] = i # [Suc i..<n]" using n(1) by (simp add: upt_conv_Cons)
    then have cat: "concat (map (\<lambda>k. projr (spec_record c key rs padSize buffer pad k)) [i..<n])
        = r @ concat (map (\<lambda>k. projr (spec_record c key rs padSize buffer pad k)) [Suc i..<n])"
      using r by simp
    have all: "\<forall>k. i \<le> k \<and> k < n \<longrightarrow> ?cur k \<le> int (length buffer)"
      using n(2) True by (metis Suc_leI le_neq_implies_less)
    have "encrypt_loop c key rs padSize buffer i (?cur i) (?bud i) result
        = Inr (result @ concat (map (\<lambda>k. projr (spec_record c key rs padSize buffer pad k)) [i..<n]),
               ?bud n)"
      unfolding step n(4) cat by simp
    moreover have "i \<le> n" using n(1) by simp
    ultimately show ?thesis
      using n(3) all by blast
  qed
qed


lemma be_value_be_bytes: "v < 256 ^ n \<Longrightarrow> be_value (be_bytes n v) = v"
proof (induction n arbitrary: v)
  case 0
  then show ?case by (simp add: be_value_def)
next
  case (Suc n)
  then have "v div 256 < 256 ^ n" by (simp add: less_mult_imp_div_less)
  then have "be_value (be_bytes n (v div 256)) = v div 256" by (rule Suc.IH)
  then show ?case by (simp add: be_value_snoc unat_of_nat)
qed

lemma slice_record:
  assumes "length tag = 16"
  shows "slice (ct @ tag) 0 (int (length (ct @ tag)) - int TAG_LENGTH) = ct"
    and "slice_from (ct @ tag) (Some (int (length (ct @ tag)) - int TAG_LENGTH)) = tag"
  using assms by (simp_all add: slice_nonneg slice_from_nonneg TAG_LENGTH_def)

lemma decryptRecord_padded:
  assumes n: "generateNonce (kn_nonce key) i = Inr n"
    and tag: "length tag = 16"
    and dec: "gcm_decrypt c (kn_key key) n ct tag
                = Some (be_bytes padSize (nat pad) @ replicate (nat pad) 0 @ data)"
    and ps: "PAD_SIZE (h_type hdr) = Some padSize"
    and pad: "0 \<le> pad" "pad < 2 ^ (8 * padSize)"
  shows "decryptRecord c key i (ct @ tag) hdr = Inr data"
proof -
  let ?plain = "be_bytes padSize (nat pad) @ replicate (nat pad) 0 @ data"
  have "nat pad < 2 ^ (8 * padSize)" using pad by (simp add: nat_less_iff)
  then have lt: "nat pad < 256 ^ padSize" by (simp add: power_mult)
  have v: "be_value (be_bytes padSize (nat pad)) = nat pad"
    using lt by (rule be_value_be_bytes)
  have "decryptRecord c key i (ct @ tag) hdr =
     (if length ?plain < padSize then Inl RangeError
      else let p = be_value (take padSize ?plain) in
        if length ?plain < p + padSize then Inl PaddingExceedsBlock
        else if \<exists>b\<in>set (take p (drop padSize ?plain)). b \<noteq> 0 then Inl InvalidPadding
        else Inr (drop (padSize + p) ?plain))"
    by (rule decryptRecord_cases [OF n _ ps]) (simp only: slice_record [OF tag] dec)
  then show ?thesis
    by (simp add: v Let_def length_be_bytes)
qed

lemma record_roundtrip:
  assumes n: "6 \<le> length (kn_nonce key)"
    and tag: "\<forall>k n p. length (snd (gcm_encrypt c k n p)) = 16"
    and inv: "\<forall>k n p. gcm_decrypt c k n (fst (gcm_encrypt c k n p)) (snd (gcm_encrypt c k n p)) = Some p"
    and ps: "PAD_SIZE (h_type hdr) = Some padSize"
    and pad: "0 \<le> pad" "pad < 2 ^ (8 * padSize)"
  shows "\<exists>r. encryptRecord c key i data pad padSize = Inr r \<and> decryptRecord c key i r hdr = Inr data"
proof -
  obtain nn where nn: "generateNonce (kn_nonce key) i = Inr nn"
    using generateNonce_ok [OF n] by blast
  let ?plain = "be_bytes padSize (nat pad) @ replicate (nat pad) 0 @ data"
  let ?e = "gcm_encrypt c (kn_key key) nn ?plain"
  have e: "encryptRecord c key i data pad padSize = Inr (fst ?e @ snd ?e)"
    using encryptRecord_ok [OF nn tag pad] .
  have "decryptRecord c key i (fst ?e @ snd ?e) hdr = Inr data"
    using tag inv by (intro decryptRecord_padded [OF nn _ _ ps pad]) simp_all
  with e show ?thesis by simp
qed

lemma length_encryptRecord:
  assumes "encryptRecord c key i data pad padSize = Inr r"
    and "0 \<le> pad" and "pad < 2 ^ (8 * padSize)"
    and "\<forall>k n p. length (fst (gcm_encrypt c k n p)) = length p"
  shows "length r = padSize + nat pad + length data + 16"
  using assms
  by (auto simp: encryptRecord_def padding_block_ok TAG_LENGTH_def split_beta length_be_bytes
           split: sum.splits if_splits)


section \<open>Records, framing and padding\<close>

lemma replicate_16: "replicate 16 x = [x, x, x, x, x, x, x, x, x, x, x, x, x, x, x, x]"
  by (simp add: numeral_eq_Suc)

lemma replicate_12: "replicate 12 x = [x, x, x, x, x, x, x, x, x, x, x, x]"
  by (simp add: numeral_eq_Suc)

lemma replicate_11: "replicate 11 x = [x, x, x, x, x, x, x, x, x, x, x]"
  by (simp add: numeral_eq_Suc)

lemma be_bytes_numeral:
  "be_bytes (numeral n) v = be_bytes (pred_numeral n) (v div 256) @ [of_nat (v mod 256)]"
  unfolding numeral_eq_Suc [of n] by simp

lemma be_bytes_6: "i < 256 \<Longrightarrow> be_bytes 6 i = [0, 0, 0, 0, 0, of_nat i]"
  by (simp add: be_bytes_numeral)

lemma demo_nonce:
  assumes "i < 256"
  shows "generateNonce (kn_nonce demo_key) i = Inr (replicate 11 7 @ [7 XOR of_nat i])"
proof -
  have "length (replicate 12 (7::byte)) = 12" by simp
  moreover have "i < 2 ^ 48" using assms by simp
  ultimately have "generateNonce (replicate 12 7) i
      = Inr (take 6 (replicate 12 7) @ xor_bytes (drop 6 (replicate 12 7)) (be_bytes 6 i))"
    by (rule generateNonce_bytes)
  moreover have "be_bytes 6 i = [0, 0, 0, 0, 0, of_nat i]"
    using assms by (rule be_bytes_6)
  ultimately show ?thesis
    by (simp add: demo_key_def replicate_12 replicate_11 xor_bytes_def)
qed

lemma demo_tag_key: "demo_tag (kn_key demo_key) (replicate 11 7 @ [x]) = replicate 11 7 @ [x, 7, 7, 7, 7]"
  by (simp add: demo_tag_def demo_key_def replicate_11 replicate_16)

lemma demo_fields [simp]:
  "gcm_encrypt demo_crypto = demo_gcm_encrypt"
  "gcm_decrypt demo_crypto = demo_gcm_decrypt"
  "hmac demo_crypto = demo_hmac"
  "b64decode demo_crypto = demo_b64decode"
  "buf_toString demo_crypto = demo_toString"
  "randomBytes demo_crypto n = replicate n 7"
  "key_get demo_crypto = demo_key_get"
  "buf_get demo_crypto = demo_buf_get"
  by (simp_all add: demo_crypto_def)

lemma demo_tag_length: "\<forall>k n p. length (snd (gcm_encrypt demo_crypto k n p)) = 16"
  by (auto simp: demo_gcm_encrypt_def demo_tag_def min_def)

lemma demo_ct_length: "\<forall>k n p. length (fst (gcm_encrypt demo_crypto k n p)) = length p"
  by (simp add: demo_gcm_encrypt_def)

lemma demo_inverse:
  "\<forall>k n p. gcm_decrypt demo_crypto k n (fst (gcm_encrypt demo_crypto k n p))
             (snd (gcm_encrypt demo_crypto k n p)) = Some p"
  by (simp add: demo_gcm_encrypt_def demo_gcm_decrypt_def comp_def)

lemma demo_hmac_length: "\<forall>k m. length (hmac demo_crypto k m) = 32"
  by (simp add: length_demo_hmac)

lemma demo_header_type: "PAD_SIZE (h_type (demo_header ''aesgcm'' rs)) = Some 2"
  by (simp add: demo_header_def PAD_SIZE_def)

lemma demo_record_decrypt:
  "gcm_decrypt demo_crypto (kn_key demo_key) (replicate 11 7 @ [7])
     (slice (ct @ replicate 16 7) 0 (int (length (ct @ replicate 16 7)) - int TAG_LENGTH))
     (slice_from (ct @ replicate 16 7) (Some (int (length (ct @ replicate 16 7)) - int TAG_LENGTH)))
   = Some (map (\<lambda>b. b - 1) ct)"
proof -
  have "length (replicate 16 (7::byte)) = 16" by simp
  note s = slice_record [OF this, of ct]
  show ?thesis
    unfolding s by (simp add: demo_gcm_decrypt_def demo_tag_key) (simp add: replicate_11 replicate_16)
qed

text \<open>
  Claim C6. For a record that passes GCM authentication (\<open>gcm_decrypt\<close> returns the data),
  \<open>decryptRecord\<close> reads the leading \<open>padSize\<close> bytes as a big-endian pad count. The
  record is rejected when \<open>pad + padSize\<close> exceeds the length of the data (with a
  RangeError from the read when the data is shorter than the length field itself), and
  when one of the \<open>pad\<close> bytes after the length field is not zero; otherwise exactly the
  bytes after position \<open>padSize + pad\<close> are returned.
\<close>

theorem decryptRecord_padding:
  assumes "generateNonce (kn_nonce key) counter = Inr nonce"
    and "gcm_decrypt c (kn_key key) nonce
           (slice buffer 0 (int (length buffer) - int TAG_LENGTH))
           (slice_from buffer (Some (int (length buffer) - int TAG_LENGTH))) = Some data"
    and "PAD_SIZE (h_type hdr) = Some padSize"
  shows "decryptRecord c key counter buffer hdr =
     (if length data < padSize then Inl RangeError
      else let pad = be_value (take padSize data) in
        if length data < pad + padSize then Inl PaddingExceedsBlock
        else if \<exists>b\<in>set (take pad (drop padSize data)). b \<noteq> 0 then Inl InvalidPadding
        else Inr (drop (padSize + pad) data))"
  using assms by (rule decryptRecord_cases)

theorem decryptRecord_padding_witness:
  "generateNonce (kn_nonce demo_key) 0 = Inr (replicate 11 7 @ [7]) \<and>
   PAD_SIZE (h_type (demo_header ''aesgcm'' 4096)) = Some 2 \<and>
   decryptRecord demo_crypto demo_key 0 ([1, 3, 1, 1, 6] @ replicate 16 7) (demo_header ''aesgcm'' 4096)
     = Inr [5] \<and>
   decryptRecord demo_crypto demo_key 0 ([1, 3, 1, 2, 6] @ replicate 16 7) (demo_header ''aesgcm'' 4096)
     = Inl InvalidPadding \<and>
   decryptRecord demo_crypto demo_key 0 ([1, 3, 1] @ replicate 16 7) (demo_header ''aesgcm'' 4096)
     = Inl PaddingExceedsBlock \<and>
   decryptRecord demo_crypto demo_key 0 ([1] @ replicate 16 7) (demo_header ''aesgcm'' 4096)
     = Inl RangeError"
proof -
  have n: "generateNonce (kn_nonce demo_key) 0 = Inr (replicate 11 7 @ [7])"
    using demo_nonce [of 0] by simp
  note p = demo_header_type [of 4096]
  note g = demo_record_decrypt
  show ?thesis
    using n p
      decryptRecord_padding [OF n g p, of "[1, 3, 1, 1, 6]"]
      decryptRecord_padding [OF n g p, of "[1, 3, 1, 2, 6]"]
      decryptRecord_padding [OF n g p, of "[1, 3, 1]"]
      decryptRecord_padding [OF n g p, of "[1]"]
    by (simp add: be_value_def)
qed


lemma demo_decryptRecord:
  "decryptRecord demo_crypto demo_key 0 ([1, 3, 1, 1, 6] @ replicate 16 7) (demo_header ''aesgcm'' rs)
     = Inr [5]"
proof -
  have n: "generateNonce (kn_nonce demo_key) 0 = Inr (replicate 11 7 @ [7])"
    using demo_nonce [of 0] by simp
  show ?thesis
    using decryptRecord_cases [OF n demo_record_decrypt demo_header_type, of "[1, 3, 1, 1, 6]" rs]
    by (simp add: be_value_def)
qed


lemma be_bytes_2: "be_bytes 2 v = [of_nat (v div 256 mod 256), of_nat (v mod 256)]"
  by (simp add: be_bytes_numeral)





text \<open>
  The loop of \<open>encrypt\<close> and the check that follows it. When every record can be
  encrypted (a pad budget that is not negative, a nonce base of at least 6 bytes, a
  16-byte tag), the loop writes the records \<open>0, ..., n - 1\<close>, where \<open>n\<close> is the first
  index whose cursor is past the end of the plaintext, and a budget left after record
  \<open>n - 1\<close> is the error.
\<close>

lemma encrypt_records_trace:
  assumes "PAD_SIZE t = Some padSize" and "int padSize < rs" and "0 \<le> pad"
    and "6 \<le> length (kn_nonce key)"
    and "\<forall>k n p. length (snd (gcm_encrypt c k n p)) = 16"
  shows "\<exists>n. (\<forall>k<n. spec_cursor rs padSize pad k \<le> int (length buffer)) \<and>
           int (length buffer) < spec_cursor rs padSize pad n \<and>
           (\<forall>k. \<not> isl (spec_record c key rs padSize buffer pad k)) \<and>
           encrypt_records c key rs padSize buffer pad result =
             (if spec_budget rs padSize pad n \<noteq> 0
              then Inl (UnableToPad (spec_budget rs padSize pad n))
              else Inr (result @ concat (map (\<lambda>k. projr (spec_record c key rs padSize buffer pad k))
                                           [0..<n])))"
proof -
  note ps = PAD_SIZE_cases [OF assms(1)]
  from encrypt_loop_trace [OF ps assms(2-5), of 0 buffer result] obtain n where
    n: "\<forall>k. 0 \<le> k \<and> k < n \<longrightarrow> spec_cursor rs padSize pad k \<le> int (length buffer)"
       "int (length buffer) < spec_cursor rs padSize pad n"
       "encrypt_loop c key rs padSize buffer 0 (spec_cursor rs padSize pad 0)
            (spec_budget rs padSize pad 0) result
          = Inr (result @ concat (map (\<lambda>k. projr (spec_record c key rs padSize buffer pad k)) [0..<n]),
                 spec_budget rs padSize pad n)"
    by blast
  have ok: "\<forall>k. \<not> isl (spec_record c key rs padSize buffer pad k)"
    using spec_record_ok [OF ps assms(2-5)] by (metis sum.disc(2))
  have "encrypt_records c key rs padSize buffer pad result =
          (if spec_budget rs padSize pad n \<noteq> 0
           then Inl (UnableToPad (spec_budget rs padSize pad n))
           else Inr (result @ concat (map (\<lambda>k. projr (spec_record c key rs padSize buffer pad k))
                                        [0..<n])))"
    using n(3) by (simp add: encrypt_records_def)
  with n(1,2) ok show ?thesis by blast
qed


lemma demo_record:
  assumes "i < 256" and "0 \<le> pad" and "pad < 2 ^ (8 * padSize)"
  shows "encryptRecord demo_crypto demo_key i data pad padSize =
           Inr (map (\<lambda>b. b + 1) (be_bytes padSize (nat pad) @ replicate (nat pad) 0 @ data)
                @ replicate 11 7 @ [7 XOR of_nat i, 7, 7, 7, 7])"
  using encryptRecord_ok [OF demo_nonce [OF assms(1)] demo_tag_length assms(2,3), of data]
  by (simp add: demo_gcm_encrypt_def demo_tag_key)

lemma demo_encrypt_records:
  "PAD_SIZE ''aesgcm'' = Some 2 \<and> 6 \<le> length (kn_nonce demo_key) \<and>
   (\<forall>k n p. length (snd (gcm_encrypt demo_crypto k n p)) = 16) \<and>
   spec_recordPad 10 2 3 = 3 \<and> spec_cursor 10 2 3 1 = 5 \<and> spec_budget 10 2 3 1 = 0 \<and>
   encrypt_records demo_crypto demo_key 10 2 [1, 2, 3] 3 []
     = Inr ([1, 4, 1, 1, 1, 2, 3, 4] @ replicate 16 7) \<and>
   spec_recordPad 10 2 9 = 7 \<and> spec_cursor 10 2 9 1 = 1 \<and> spec_budget 10 2 9 1 = 2 \<and>
   encrypt_records demo_crypto demo_key 10 2 [] 9 [] = Inl (UnableToPad 2)"
proof -
  have t: "PAD_SIZE ''aesgcm'' = Some 2" by (simp add: PAD_SIZE_def)
  have r: "int 2 < (10::int)" by simp
  have n: "6 \<le> length (kn_nonce demo_key)" by (simp add: demo_key_def)
  have rp3: "spec_recordPad 10 2 3 = 3" and rp9: "spec_recordPad 10 2 9 = 7"
    by (simp_all add: spec_recordPad_def maxPad_def)
  have c3: "spec_cursor 10 2 3 1 = 5" and b3: "spec_budget 10 2 3 1 = 0"
    and c9: "spec_cursor 10 2 9 1 = 1" and b9: "spec_budget 10 2 9 1 = 2"
    by (simp_all add: rp3 rp9)
  have one: "m = 1"
    if "\<forall>k<m. spec_cursor 10 2 pad k \<le> int len" "int len < spec_cursor 10 2 pad m"
      "int len < spec_cursor 10 2 pad 1" for m pad len
  proof -
    have "m \<noteq> 0" using that(2) by (cases m) simp_all
    moreover have "\<not> 1 < m" using that(1,3) by (metis not_le)
    ultimately show ?thesis by simp
  qed
  have r3: "replicate 3 (1::byte) = [1, 1, 1]" by (simp add: numeral_3_eq_3)
  have rec3: "spec_record demo_crypto demo_key 10 2 [1, 2, 3] 3 0
                = Inr ([1, 4, 1, 1, 1, 2, 3, 4] @ replicate 16 7)"
    using demo_record [of 0 3 2 "[1, 2, 3]"]
    by (simp add: spec_record_def spec_slice_def rp3 slice_nonneg be_bytes_2 replicate_11 replicate_16 r3)
  have e3: "encrypt_records demo_crypto demo_key 10 2 [1, 2, 3] 3 []
              = Inr ([1, 4, 1, 1, 1, 2, 3, 4] @ replicate 16 7)"
  proof -
    from encrypt_records_trace [OF t r _ n demo_tag_length, of 3 "[1, 2, 3]" "[]"] obtain m where
      m: "\<forall>k<m. spec_cursor 10 2 3 k \<le> int (length [1, 2, 3 :: byte])"
         "int (length [1, 2, 3 :: byte]) < spec_cursor 10 2 3 m"
         "encrypt_records demo_crypto demo_key 10 2 [1, 2, 3] 3 [] =
            (if spec_budget 10 2 3 m \<noteq> 0 then Inl (UnableToPad (spec_budget 10 2 3 m))
             else Inr ([] @ concat (map (\<lambda>k. projr (spec_record demo_crypto demo_key 10 2 [1, 2, 3] 3 k))
                                      [0..<m])))"
      by auto
    have "m = 1" using m(1,2) c3 by (intro one [of m 3 3]) simp_all
    then show ?thesis using m(3) b3 rec3 by simp
  qed
  have e9: "encrypt_records demo_crypto demo_key 10 2 [] 9 [] = Inl (UnableToPad 2)"
  proof -
    from encrypt_records_trace [OF t r _ n demo_tag_length, of 9 "[]" "[]"] obtain m where
      m: "\<forall>k<m. spec_cursor 10 2 9 k \<le> int (length ([] :: buffer))"
         "int (length ([] :: buffer)) < spec_cursor 10 2 9 m"
         "encrypt_records demo_crypto demo_key 10 2 [] 9 [] =
            (if spec_budget 10 2 9 m \<noteq> 0 then Inl (UnableToPad (spec_budget 10 2 9 m))
             else Inr ([] @ concat (map (\<lambda>k. projr (spec_record demo_crypto demo_key 10 2 [] 9 k))
                                      [0..<m])))"
      by auto
    have "m = 1" using m(1,2) c9 by (intro one [of m 9 0]) simp_all
    then show ?thesis using m(3) b9 by simp
  qed
  show ?thesis
    using t n demo_tag_length rp3 rp9 c3 b3 c9 b9 e3 e9 by (intro conjI)
qed

lemma demo_b64_key: "demo_b64decode ''AAAAAAAAAAAAAAAAAAAAAA'' = replicate 16 0"
  by code_simp

lemma demo_b64_salt: "demo_b64decode ''BwcHBwcHBwcHBwcHBwcHBw'' = replicate 16 7"
  by code_simp

lemma demo_derive:
  assumes "h_salt hdr = Some salt" "length salt = 16" "h_key hdr = Some k" "length k = 16"
    and "h_authSecret hdr = None"
    and "h_type hdr = ''aesgcm128'' \<or> h_type hdr = ''aesgcm'' \<or> h_type hdr = ''aes128gcm''"
  shows "deriveKeyAndNonce demo_crypto ks hdr m = Inr \<lparr>kn_key = salt, kn_nonce = take 12 salt\<rparr>"
proof -
  have x: "HKDF_extract demo_crypto salt k = salt @ k"
    using assms(2,4) by (simp add: HKDF_extract_def HMAC_hash_def demo_hmac_def)
  have e16: "HKDF_expand demo_crypto (salt @ k) nfo 16 = Inr salt" for nfo
    using HKDF_expand_one [OF demo_hmac_length, of 16 "salt @ k" nfo] assms(2,4)
    by (simp add: demo_hmac_def)
  have e12: "HKDF_expand demo_crypto (salt @ k) nfo 12 = Inr (take 12 salt)" for nfo
    using HKDF_expand_one [OF demo_hmac_length, of 12 "salt @ k" nfo] assms(2,4)
    by (simp add: demo_hmac_def)
  have s: "extractSecretAndContext demo_crypto ks hdr m
             = Inr \<lparr>sc_secret = Val (KeyBuffer k), sc_context = []\<rparr>"
    using assms(3,4,5) by (simp add: extractSecretAndContext_def KEY_LENGTH_def)
  show ?thesis
    using assms(1,6)
    by (auto simp: deriveKeyAndNonce_def s hmac_input_def x e16 e12 KEY_LENGTH_def NONCE_LENGTH_def)
qed


section \<open>The entry points\<close>

lemma parseParams_fields:
  assumes "parseParams c p = Inr hdr"
  shows "h_len hdr = None"
    and "h_type hdr = (if p_padSize p = Number 1 then ''aesgcm128'' else ''aesgcm'')"
    and "determineRecordSize (p_rs p) (h_type hdr) = Inr (h_rs hdr)"
    and "h_key hdr = decode_opt c (p_key p)"
    and "h_dh hdr = decode_opt c (p_dh p)"
    and "h_authSecret hdr = decode_opt c (p_authSecret p)"
    and "h_keyid hdr = p_keyid p"
  using assms by (auto simp: parseParams_def Let_def split: sum.splits if_splits)

lemma encrypt_legacy:
  assumes "truthy (p_salt p)" and "parseParams c p = Inr hdr"
    and "deriveKeyAndNonce c ks hdr MODE_ENCRYPT = Inr key"
    and "PAD_SIZE (h_type hdr) = Some padSize"
  shows "encrypt c ks buf p =
           encrypt_records c key (h_rs hdr) padSize buf
             (case parseInt (p_pad p) of None \<Rightarrow> 0 | Some n \<Rightarrow> n) []"
  using assms parseParams_fields(3) [OF assms(2)]
  by (simp add: encrypt_def Let_def)

lemma decrypt_legacy:
  assumes "truthy (p_salt p)" and "parseParams c p = Inr hdr"
    and "deriveKeyAndNonce c ks hdr MODE_DECRYPT = Inr key"
  shows "decrypt c ks buf p = decrypt_loop c key hdr buf 0 0 []"
  using assms parseParams_fields(1) [OF assms(2)]
  by (simp add: decrypt_def slice_from_None)

lemma demo_parseParams:
  assumes "determineRecordSize rs ''aesgcm'' = Inr n"
  shows "parseParams demo_crypto (demo_params (Some ''BwcHBwcHBwcHBwcHBwcHBw'') rs pad)
           = Inr (demo_header ''aesgcm'' n)"
  using assms
  by (simp add: parseParams_def demo_params_def demo_header_def truthy_def extractSalt_def
        decode_opt_def demo_b64_salt demo_b64_key KEY_LENGTH_def Let_def)

lemma demo_derive_header:
  assumes "t = ''aesgcm128'' \<or> t = ''aesgcm'' \<or> t = ''aes128gcm''"
  shows "deriveKeyAndNonce demo_crypto ks (demo_header t rs) m = Inr demo_key"
proof -
  have "deriveKeyAndNonce demo_crypto ks (demo_header t rs) m
          = Inr \<lparr>kn_key = replicate 16 7, kn_nonce = take 12 (replicate 16 7)\<rparr>"
    using assms by (intro demo_derive [where k = "replicate 16 0"]) (simp_all add: demo_header_def)
  then show ?thesis by (simp add: demo_key_def)
qed

lemma slice_append_mid:
  "slice (pre @ r @ post) (int (length pre)) (int (length pre) + int (length r)) = r"
  by (simp add: slice_nonneg nat_add_distrib)

lemma decrypt_loop_next:
  assumes "start + h_rs hdr + 16 < int (length buf)" and "0 < h_rs hdr"
  shows "decrypt_loop c key hdr buf i start res =
           (case decryptRecord c key i (slice buf start (start + h_rs hdr + 16)) hdr of
              Inl e \<Rightarrow> Inl e
            | Inr d \<Rightarrow> decrypt_loop c key hdr buf (i + 1) (start + h_rs hdr + 16) (res @ d))"
  using assms
  by (subst decrypt_loop.simps) (simp add: Let_def min_def TAG_LENGTH_def)

lemma decrypt_loop_end:
  "int (length buf) \<le> start \<Longrightarrow> decrypt_loop c key hdr buf i start res = Inr res"
  by (subst decrypt_loop.simps) simp

lemma decrypt_loop_records:
  assumes "0 < h_rs hdr" and "rest \<noteq> []"
    and "\<forall>j<length recs. int (length (fst (recs ! j))) = h_rs hdr + 16 \<and>
           decryptRecord c key (i + j) (fst (recs ! j)) hdr = Inr (snd (recs ! j))"
  shows "decrypt_loop c key hdr (pre @ concat (map fst recs) @ rest) i (int (length pre)) res
           = decrypt_loop c key hdr (pre @ concat (map fst recs) @ rest) (i + length recs)
               (int (length (pre @ concat (map fst recs)))) (res @ concat (map snd recs))"
  using assms(3)
proof (induction recs arbitrary: pre i res)
  case Nil
  show ?case by simp
next
  case (Cons rd recs)
  obtain r d where rd: "rd = (r, d)" by (cases rd)
  let ?post = "concat (map fst recs) @ rest"
  let ?buf = "pre @ r @ ?post"
  have buf: "pre @ concat (map fst (rd # recs)) @ rest = ?buf" using rd by simp
  have l: "int (length r) = h_rs hdr + 16" and dec: "decryptRecord c key i r hdr = Inr d"
    using Cons.prems [rule_format, of 0] rd by simp_all
  have e: "int (length pre) + h_rs hdr + 16 = int (length pre) + int (length r)" using l by simp
  have s: "slice ?buf (int (length pre)) (int (length pre) + h_rs hdr + 16) = r"
    unfolding e by (rule slice_append_mid)
  have pos: "0 < int (length rest)" using assms(2) by simp
  have "int (length ?buf) = int (length pre) + int (length r)
          + int (length (concat (map fst recs))) + int (length rest)" by simp
  then have lt: "int (length pre) + h_rs hdr + 16 < int (length ?buf)"
    using pos e by linarith
  have step: "decrypt_loop c key hdr ?buf i (int (length pre)) res
                = decrypt_loop c key hdr ?buf (i + 1) (int (length (pre @ r))) (res @ d)"
    using decrypt_loop_next [OF lt assms(1), of c key i res, unfolded s dec] l
    by (simp add: add.assoc)
  have ih: "decrypt_loop c key hdr ((pre @ r) @ ?post) (i + 1) (int (length (pre @ r))) (res @ d)
      = decrypt_loop c key hdr ((pre @ r) @ ?post) (i + 1 + length recs)
          (int (length ((pre @ r) @ concat (map fst recs)))) ((res @ d) @ concat (map snd recs))"
  proof (rule Cons.IH, intro allI impI)
    fix j assume "j < length recs"
    then have "Suc j < length (rd # recs)" by simp
    from Cons.prems [rule_format, OF this]
    show "int (length (fst (recs ! j))) = h_rs hdr + 16 \<and>
          decryptRecord c key (i + 1 + j) (fst (recs ! j)) hdr = Inr (snd (recs ! j))"
      by simp
  qed
  show ?case
    unfolding buf step using ih rd by simp
qed

lemma decrypt_loop_walk_all:
  assumes "0 < h_rs hdr" and "rest \<noteq> []" and "int (length rest) \<le> h_rs hdr + 16"
    and "\<forall>j<length recs. int (length (fst (recs ! j))) = h_rs hdr + 16 \<and>
           decryptRecord c key j (fst (recs ! j)) hdr = Inr (snd (recs ! j))"
  shows "decrypt_loop c key hdr (concat (map fst recs) @ rest) 0 0 [] =
           (if int (length rest) = h_rs hdr + 16 then Inl TruncatedPayload
            else if length rest \<le> 16 then Inl (BlockTooSmall (length recs))
            else (case decryptRecord c key (length recs) rest hdr of
                    Inl e \<Rightarrow> Inl e
                  | Inr d \<Rightarrow> Inr (concat (map snd recs) @ d)))"
proof -
  let ?pre = "concat (map fst recs)"
  let ?buf = "?pre @ rest"
  have a: "\<forall>j<length recs. int (length (fst (recs ! j))) = h_rs hdr + 16 \<and>
           decryptRecord c key (0 + j) (fst (recs ! j)) hdr = Inr (snd (recs ! j))"
    using assms(4) by simp
  have w: "decrypt_loop c key hdr ?buf 0 0 []
             = decrypt_loop c key hdr ?buf (length recs) (int (length ?pre)) (concat (map snd recs))"
    using decrypt_loop_records [OF assms(1,2) a, of "[]" "[]"] by simp
  have lt: "int (length ?pre) < int (length ?buf)" using assms(2) by simp
  have s: "slice ?buf (int (length ?pre)) (int (length ?buf)) = rest"
    using slice_append_mid [of ?pre rest "[]"] by simp
  have len: "int (length ?buf) = int (length ?pre) + int (length rest)" by simp
  note c = decrypt_loop_cases [OF lt, of hdr c key "length recs" "concat (map snd recs)"]
  show ?thesis
  proof (cases "int (length rest) = h_rs hdr + 16")
    case True
    then have "int (length ?pre) + h_rs hdr + 16 = int (length ?buf)" by simp
    with c show ?thesis unfolding w using True by simp
  next
    case False
    then have lt2: "int (length ?buf) < int (length ?pre) + h_rs hdr + 16"
      using assms(3) by simp
    show ?thesis
    proof (cases "length rest \<le> 16")
      case True
      then have "int (length ?buf) - int (length ?pre) \<le> 16" by simp
      with c lt2 show ?thesis unfolding w using False True by simp
    next
      case big: False
      then have "16 < int (length ?buf) - int (length ?pre)" by simp
      with c lt2 have "decrypt_loop c key hdr ?buf (length recs) (int (length ?pre)) (concat (map snd recs))
          = (case decryptRecord c key (length recs) (slice ?buf (int (length ?pre)) (int (length ?buf))) hdr of
               Inl e \<Rightarrow> Inl e | Inr block \<Rightarrow> Inr (concat (map snd recs) @ block))"
        by blast
      then show ?thesis unfolding w s using False big by simp
    qed
  qed
qed
text \<open>
  Claim C7. For the legacy variants (a salt in the parameters), \<open>decrypt\<close> is the loop
  over the ciphertext from its start, with a record size that is positive. At a record
  start the loop does one of five things: past the end of the buffer it returns what it
  has; when a full record of \<open>rs + 16\<close> bytes is followed by more bytes, it decrypts that
  record and goes on behind it with the next counter; when the record would end exactly
  at the end of the buffer, it fails with the truncation error; when the rest of the
  buffer is shorter than \<open>rs + 16\<close>, it is rejected as too small if it has 16 bytes or
  fewer, and otherwise it is decrypted as the last record, after which the loop
  returns. So for a ciphertext made of full records that decrypt, followed by a rest of
  at most \<open>rs + 16\<close> bytes: a rest of exactly \<open>rs + 16\<close> bytes is the truncation error, a
  rest of 16 bytes or fewer is too small, and a rest in between is the last record,
  whose data ends the plaintext.
\<close>

theorem decrypt_framing:
  assumes "truthy (p_salt p)" and "parseParams c p = Inr hdr"
    and "deriveKeyAndNonce c ks hdr MODE_DECRYPT = Inr key"
  shows "0 < h_rs hdr \<and>
         decrypt c ks buffer p = decrypt_loop c key hdr buffer 0 0 [] \<and>
         (\<forall>i start result.
           (int (length buffer) \<le> start \<longrightarrow>
              decrypt_loop c key hdr buffer i start result = Inr result) \<and>
           (start + h_rs hdr + 16 < int (length buffer) \<longrightarrow>
              decrypt_loop c key hdr buffer i start result =
                (case decryptRecord c key i (slice buffer start (start + h_rs hdr + 16)) hdr of
                   Inl e \<Rightarrow> Inl e
                 | Inr block \<Rightarrow>
                     decrypt_loop c key hdr buffer (i + 1) (start + h_rs hdr + 16) (result @ block))) \<and>
           (start < int (length buffer) \<longrightarrow>
             (start + h_rs hdr + 16 = int (length buffer) \<longrightarrow>
                decrypt_loop c key hdr buffer i start result = Inl TruncatedPayload) \<and>
             (int (length buffer) < start + h_rs hdr + 16 \<and> int (length buffer) - start \<le> 16 \<longrightarrow>
                decrypt_loop c key hdr buffer i start result = Inl (BlockTooSmall i)) \<and>
             (int (length buffer) < start + h_rs hdr + 16 \<and> 16 < int (length buffer) - start \<longrightarrow>
                decrypt_loop c key hdr buffer i start result =
                  (case decryptRecord c key i (slice buffer start (int (length buffer))) hdr of
                     Inl e \<Rightarrow> Inl e
                   | Inr block \<Rightarrow> Inr (result @ block))))) \<and>
         decrypt c ks [] p = Inr [] \<and>
         (\<forall>recs rest.
            rest \<noteq> [] \<and> int (length rest) \<le> h_rs hdr + 16 \<and>
            (\<forall>j<length recs. int (length (fst (recs ! j))) = h_rs hdr + 16 \<and>
               decryptRecord c key j (fst (recs ! j)) hdr = Inr (snd (recs ! j))) \<longrightarrow>
            decrypt c ks (concat (map fst recs) @ rest) p =
              (if int (length rest) = h_rs hdr + 16 then Inl TruncatedPayload
               else if length rest \<le> 16 then Inl (BlockTooSmall (length recs))
               else (case decryptRecord c key (length recs) rest hdr of
                       Inl e \<Rightarrow> Inl e
                     | Inr d \<Rightarrow> Inr (concat (map snd recs) @ d))))"
proof -
  note f = parseParams_fields [OF assms(2)]
  have "PAD_SIZE (h_type hdr) = Some (if p_padSize p = Number 1 then 1 else 2)"
    using f(2) by (simp add: PAD_SIZE_def)
  then have rs: "0 < h_rs hdr"
    using determineRecordSize_above [OF _ f(3)] by fastforce
  have d: "decrypt c ks b p = decrypt_loop c key hdr b 0 0 []" for b
    using assms by (rule decrypt_legacy)
  have steps: "\<forall>i start result.
           (int (length buffer) \<le> start \<longrightarrow>
              decrypt_loop c key hdr buffer i start result = Inr result) \<and>
           (start + h_rs hdr + 16 < int (length buffer) \<longrightarrow>
              decrypt_loop c key hdr buffer i start result =
                (case decryptRecord c key i (slice buffer start (start + h_rs hdr + 16)) hdr of
                   Inl e \<Rightarrow> Inl e
                 | Inr block \<Rightarrow>
                     decrypt_loop c key hdr buffer (i + 1) (start + h_rs hdr + 16) (result @ block))) \<and>
           (start < int (length buffer) \<longrightarrow>
             (start + h_rs hdr + 16 = int (length buffer) \<longrightarrow>
                decrypt_loop c key hdr buffer i start result = Inl TruncatedPayload) \<and>
             (int (length buffer) < start + h_rs hdr + 16 \<and> int (length buffer) - start \<le> 16 \<longrightarrow>
                decrypt_loop c key hdr buffer i start result = Inl (BlockTooSmall i)) \<and>
             (int (length buffer) < start + h_rs hdr + 16 \<and> 16 < int (length buffer) - start \<longrightarrow>
                decrypt_loop c key hdr buffer i start result =
                  (case decryptRecord c key i (slice buffer start (int (length buffer))) hdr of
                     Inl e \<Rightarrow> Inl e
                   | Inr block \<Rightarrow> Inr (result @ block))))"
    using decrypt_loop_end [of buffer _ c key hdr] decrypt_loop_next [OF _ rs, of _ buffer c key]
      decrypt_loop_cases [of _ buffer hdr c key]
    by blast
  have empty: "decrypt c ks [] p = Inr []"
    unfolding d by (simp add: decrypt_loop_end)
  have walk: "\<forall>recs rest.
            rest \<noteq> [] \<and> int (length rest) \<le> h_rs hdr + 16 \<and>
            (\<forall>j<length recs. int (length (fst (recs ! j))) = h_rs hdr + 16 \<and>
               decryptRecord c key j (fst (recs ! j)) hdr = Inr (snd (recs ! j))) \<longrightarrow>
            decrypt c ks (concat (map fst recs) @ rest) p =
              (if int (length rest) = h_rs hdr + 16 then Inl TruncatedPayload
               else if length rest \<le> 16 then Inl (BlockTooSmall (length recs))
               else (case decryptRecord c key (length recs) rest hdr of
                       Inl e \<Rightarrow> Inl e
                     | Inr d \<Rightarrow> Inr (concat (map snd recs) @ d)))"
    unfolding d using decrypt_loop_walk_all [OF rs] by blast
  show ?thesis using rs d [of buffer] steps empty walk by (intro conjI)
qed

lemma demo_record_decrypt_tag:
  "gcm_decrypt demo_crypto (kn_key demo_key) (replicate 11 7 @ [x])
     (slice (ct @ replicate 11 7 @ [x, 7, 7, 7, 7]) 0
        (int (length (ct @ replicate 11 7 @ [x, 7, 7, 7, 7])) - int TAG_LENGTH))
     (slice_from (ct @ replicate 11 7 @ [x, 7, 7, 7, 7])
        (Some (int (length (ct @ replicate 11 7 @ [x, 7, 7, 7, 7])) - int TAG_LENGTH)))
   = Some (map (\<lambda>b. b - 1) ct)"
proof -
  have "length (replicate 11 (7::byte) @ [x, 7, 7, 7, 7]) = 16" by simp
  note s = slice_record [OF this, of ct]
  show ?thesis
    unfolding s by (simp add: demo_gcm_decrypt_def demo_tag_key)
qed

lemma demo_decryptRecord_0:
  "decryptRecord demo_crypto demo_key 0 ([1, 1, 2, 3, 4, 5, 6, 7, 8, 9] @ replicate 16 7)
     (demo_header ''aesgcm'' rs) = Inr [1, 2, 3, 4, 5, 6, 7, 8]"
proof -
  have n: "generateNonce (kn_nonce demo_key) 0 = Inr (replicate 11 7 @ [7])"
    using demo_nonce [of 0] by simp
  show ?thesis
    using decryptRecord_cases [OF n demo_record_decrypt demo_header_type,
            of "[1, 1, 2, 3, 4, 5, 6, 7, 8, 9]" rs]
    by (simp add: be_value_def)
qed

lemma demo_decryptRecord_1:
  "decryptRecord demo_crypto demo_key 1 ([1, 1, 6] @ replicate 11 7 @ [6, 7, 7, 7, 7])
     (demo_header ''aesgcm'' rs) = Inr [5]"
proof -
  have n: "generateNonce (kn_nonce demo_key) 1 = Inr (replicate 11 7 @ [6])"
    using demo_nonce [of 1] by simp
  show ?thesis
    using decryptRecord_cases [OF n demo_record_decrypt_tag demo_header_type, of "[1, 1, 6]" rs]
    by (simp add: be_value_def)
qed

theorem decrypt_framing_witness:
  "truthy (p_salt (demo_params (Some ''BwcHBwcHBwcHBwcHBwcHBw'') (Number 10) Undefined)) \<and>
   parseParams demo_crypto (demo_params (Some ''BwcHBwcHBwcHBwcHBwcHBw'') (Number 10) Undefined)
     = Inr (demo_header ''aesgcm'' 10) \<and>
   deriveKeyAndNonce demo_crypto empty_keystore (demo_header ''aesgcm'' 10) MODE_DECRYPT
     = Inr demo_key \<and>
   decrypt demo_crypto empty_keystore (replicate 26 0)
       (demo_params (Some ''BwcHBwcHBwcHBwcHBwcHBw'') (Number 10) Undefined)
     = Inl TruncatedPayload \<and>
   decrypt demo_crypto empty_keystore (replicate 5 0)
       (demo_params (Some ''BwcHBwcHBwcHBwcHBwcHBw'') (Number 10) Undefined)
     = Inl (BlockTooSmall 0) \<and>
   decrypt demo_crypto empty_keystore ([1, 3, 1, 1, 6] @ replicate 16 7)
       (demo_params (Some ''BwcHBwcHBwcHBwcHBwcHBw'') (Number 10) Undefined)
     = Inr [5] \<and>
   decryptRecord demo_crypto demo_key 0 ([1, 1, 2, 3, 4, 5, 6, 7, 8, 9] @ replicate 16 7)
       (demo_header ''aesgcm'' 10)
     = Inr [1, 2, 3, 4, 5, 6, 7, 8] \<and>
   decrypt demo_crypto empty_keystore
       (([1, 1, 2, 3, 4, 5, 6, 7, 8, 9] @ replicate 16 7) @ [1, 1, 6] @ replicate 11 7 @ [6, 7, 7, 7, 7])
       (demo_params (Some ''BwcHBwcHBwcHBwcHBwcHBw'') (Number 10) Undefined)
     = Inr [1, 2, 3, 4, 5, 6, 7, 8, 5] \<and>
   length (([1, 1, 2, 3, 4, 5, 6, 7, 8, 9] @ replicate 16 7) @ replicate 26 (0::byte)) = 52 \<and>
   decrypt demo_crypto empty_keystore
       (([1, 1, 2, 3, 4, 5, 6, 7, 8, 9] @ replicate 16 7) @ replicate 26 0)
       (demo_params (Some ''BwcHBwcHBwcHBwcHBwcHBw'') (Number 10) Undefined)
     = Inl TruncatedPayload \<and>
   decrypt demo_crypto empty_keystore
       (([1, 1, 2, 3, 4, 5, 6, 7, 8, 9] @ replicate 16 7) @ replicate 5 0)
       (demo_params (Some ''BwcHBwcHBwcHBwcHBwcHBw'') (Number 10) Undefined)
     = Inl (BlockTooSmall 1)"
proof -
  let ?p = "demo_params (Some ''BwcHBwcHBwcHBwcHBwcHBw'') (Number 10) Undefined"
  let ?h = "demo_header ''aesgcm'' 10"
  let ?r0 = "[1, 1, 2, 3, 4, 5, 6, 7, 8, 9] @ replicate 16 (7::byte)"
  have t: "truthy (p_salt ?p)" by (simp add: demo_params_def truthy_def)
  have rs: "determineRecordSize (Number 10) ''aesgcm'' = Inr 10"
    by (simp add: determineRecordSize_def parseInt_def PAD_SIZE_def)
  note pp = demo_parseParams [OF rs, of Undefined]
  have k: "deriveKeyAndNonce demo_crypto empty_keystore ?h MODE_DECRYPT = Inr demo_key"
    by (rule demo_derive_header) simp
  have r: "h_rs ?h = 10" by (simp add: demo_header_def)
  note f = decrypt_framing [OF t pp k, of "[]"]
  note w = f [THEN conjunct2, THEN conjunct2, THEN conjunct2, THEN conjunct2, rule_format]
  have none: "\<forall>j<length ([] :: (buffer \<times> buffer) list).
      int (length (fst ([] ! j))) = h_rs ?h + 16 \<and>
      decryptRecord demo_crypto demo_key j (fst ([] ! j)) ?h = Inr (snd ([] ! j))"
    by simp
  have one: "\<forall>j<length [(?r0, [1, 2, 3, 4, 5, 6, 7, 8 :: byte])].
      int (length (fst ([(?r0, [1, 2, 3, 4, 5, 6, 7, 8])] ! j))) = h_rs ?h + 16 \<and>
      decryptRecord demo_crypto demo_key j (fst ([(?r0, [1, 2, 3, 4, 5, 6, 7, 8])] ! j)) ?h
        = Inr (snd ([(?r0, [1, 2, 3, 4, 5, 6, 7, 8])] ! j))"
    using demo_decryptRecord_0 [of 10] by (simp add: r)
  have a: "decrypt demo_crypto empty_keystore (replicate 26 0) ?p = Inl TruncatedPayload"
    using w [of "replicate 26 0" "[]"] none by (simp add: r)
  have b: "decrypt demo_crypto empty_keystore (replicate 5 0) ?p = Inl (BlockTooSmall 0)"
    using w [of "replicate 5 0" "[]"] none by (simp add: r)
  have c: "decrypt demo_crypto empty_keystore ([1, 3, 1, 1, 6] @ replicate 16 7) ?p = Inr [5]"
    using w [of "[1, 3, 1, 1, 6] @ replicate 16 7" "[]"] none demo_decryptRecord [of 10]
    by (simp add: r)
  have d: "decrypt demo_crypto empty_keystore (?r0 @ [1, 1, 6] @ replicate 11 7 @ [6, 7, 7, 7, 7]) ?p
             = Inr [1, 2, 3, 4, 5, 6, 7, 8, 5]"
    using w [of "[1, 1, 6] @ replicate 11 7 @ [6, 7, 7, 7, 7]" "[(?r0, [1, 2, 3, 4, 5, 6, 7, 8])]"] one
      demo_decryptRecord_1 [of 10]
    by (simp add: r)
  have e: "decrypt demo_crypto empty_keystore (?r0 @ replicate 26 0) ?p = Inl TruncatedPayload"
    using w [of "replicate 26 0" "[(?r0, [1, 2, 3, 4, 5, 6, 7, 8])]"] one by (simp add: r)
  have g: "decrypt demo_crypto empty_keystore (?r0 @ replicate 5 0) ?p = Inl (BlockTooSmall 1)"
    using w [of "replicate 5 0" "[(?r0, [1, 2, 3, 4, 5, 6, 7, 8])]"] one by (simp add: r)
  have l: "length (?r0 @ replicate 26 (0::byte)) = 52" by simp
  show ?thesis
    using t pp k a b c demo_decryptRecord_0 [of 10] d l e g by (intro conjI)
qed

lemma encrypt_loop_done:
  "int (length buf) < start \<Longrightarrow> encrypt_loop c key rs padSize buf i start pad result = Inr (result, pad)"
  by (subst encrypt_loop.simps) simp

lemma decrypt_loop_done:
  "decrypt_loop c key hdr buf i (int (length buf)) result = Inr result"
  by (subst decrypt_loop.simps) simp

lemma shl1_16: "shl1 16 = 65536"
  by (simp add: shl1_def)

lemma demo_encrypt_big_rs:
  "encrypt_records demo_crypto demo_key 4294967296 2 [5] 0 [] = Inr ([1, 1, 6] @ replicate 16 7)"
proof -
  have r: "encryptRecord demo_crypto demo_key 0 [5] 0 2 = Inr ([1, 1, 6] @ replicate 16 7)"
    using demo_record [of 0 0 2 "[5]"] by (simp add: be_bytes_2 replicate_11 replicate_16)
  have s: "slice [5] 0 1 = [5]" by (simp add: slice_nonneg)
  have "encrypt_loop demo_crypto demo_key 4294967296 2 [5] 0 0 0 []
          = Inr ([1, 1, 6] @ replicate 16 7, 0)"
    by (subst encrypt_loop.simps) (simp add: shl1_16 s r encrypt_loop_done)
  then show ?thesis by (simp add: encrypt_records_def)
qed











lemma determineRecordSize_exponent:
  "parseInt (Number 1000000000000000000000) = Some 1"
  "determineRecordSize (Number 1000000000000000000000) ''aesgcm'' = Inl (RsTooSmall 2)"
proof -
  have d: "dec_length 1000000000000000000000 = 22" by (simp add: dec_length.simps)
  have b: "bit_length 1000000000000000000000 = 70" by (simp add: bit_length.simps)
  have b2: "bit_length 2000000000000000000000 = 71" by (simp add: bit_length.simps)
  have r: "round_double 1000000000000000000000 = Some 1000000000000000000000"
    by (simp add: round_double_def b Let_def)
  have r2: "round_double 2000000000000000000000 = Some 2000000000000000000000"
    by (simp add: round_double_def b2 Let_def)
  have u: "[Suc 0..<18] = Suc 0 # [2..<18]" by (simp add: upt_conv_Cons)
  have s1: "shortest_decimals 1000000000000000000000 (Suc 0) = [1000000000000000000000]"
    by (simp add: shortest_decimals_def d r r2 Let_def)
  have "exp_leading_digit 1000000000000000000000 = 1"
    by (simp add: exp_leading_digit_def u s1 leading_digit_def d)
  then show p: "parseInt (Number 1000000000000000000000) = Some 1"
    by (simp add: parseInt_def)
  show "determineRecordSize (Number 1000000000000000000000) ''aesgcm'' = Inl (RsTooSmall 2)"
    by (simp add: determineRecordSize_def p PAD_SIZE_def)
qed

lemma encrypt_aes128gcm:
  assumes "\<not> truthy (p_salt p)" and "parseParams c p = Inr hd0"
    and "encodeHeader (hd0\<lparr>h_type := ''aes128gcm'', h_salt := Some (randomBytes c KEY_LENGTH)\<rparr>) = Inr hb"
    and "determineRecordSize (p_rs p) ''aes128gcm'' = Inr rs"
    and "deriveKeyAndNonce c ks
           (hd0\<lparr>h_type := ''aes128gcm'', h_salt := Some (randomBytes c KEY_LENGTH), h_rs := rs\<rparr>)
           MODE_ENCRYPT = Inr key"
  shows "encrypt c ks buf p =
           encrypt_records c key rs 2 buf (case parseInt (p_pad p) of None \<Rightarrow> 0 | Some n \<Rightarrow> n) hb"
  using assms by (simp add: encrypt_def Let_def PAD_SIZE_def)

lemma be_bytes_4: "be_bytes 4 v = [of_nat (v div 256 div 256 div 256 mod 256),
    of_nat (v div 256 div 256 mod 256), of_nat (v div 256 mod 256), of_nat (v mod 256)]"
  by (simp add: be_bytes_numeral)

lemma demo_encodeHeader:
  "encodeHeader (demo_header ''aes128gcm'' 4096) = Inr (replicate 16 7 @ [0, 0, 16, 0, 0])"
proof -
  have r5: "replicate 5 (0::byte) = [0, 0, 0, 0, 0]" by (simp add: numeral_eq_Suc)
  have w1: "writeUIntBE (replicate 5 0) 4096 0 4 = Inr [0, 0, 16, 0, 0]"
    by (simp add: writeUIntBE_def be_bytes_4 r5)
  have w2: "writeUIntBE [0, 0, 16, 0, 0] 0 4 (Suc 0) = Inr [0, 0, 16, 0, 0]"
    by (simp add: writeUIntBE_def)
  show ?thesis
    by (simp add: encodeHeader_def demo_header_def truthy_def utf8_bytes_def w1 w2)
qed

lemma demo_parseParams_nosalt:
  "parseParams demo_crypto (demo_params None Undefined pad)
     = Inr ((demo_header ''aesgcm'' 4096)\<lparr>h_salt := None\<rparr>)"
  by (simp add: parseParams_def demo_params_def demo_header_def truthy_def
        decode_opt_def demo_b64_key determineRecordSize_def parseInt_def Let_def)

lemma demo_encrypt_aes128gcm:
  assumes "length data < 4094"
  shows "encrypt demo_crypto empty_keystore data (demo_params None Undefined Undefined)
     = Inr (replicate 16 7 @ [0, 0, 16, 0, 0] @ [1, 1] @ map (\<lambda>b. b + 1) data @ replicate 16 7)"
proof -
  let ?p = "demo_params None Undefined Undefined"
  have t: "\<not> truthy (p_salt ?p)" by (simp add: demo_params_def truthy_def)
  have h: "(demo_header ''aesgcm'' 4096)\<lparr>h_salt := None, h_type := ''aes128gcm'',
             h_salt := Some (randomBytes demo_crypto KEY_LENGTH)\<rparr> = demo_header ''aes128gcm'' 4096"
    by (simp add: demo_header_def KEY_LENGTH_def)
  have h': "(demo_header ''aesgcm'' 4096)\<lparr>h_salt := None, h_type := ''aes128gcm'',
             h_salt := Some (randomBytes demo_crypto KEY_LENGTH), h_rs := 4096\<rparr>
             = demo_header ''aes128gcm'' 4096"
    by (simp add: demo_header_def KEY_LENGTH_def)
  have e: "encodeHeader ((demo_header ''aesgcm'' 4096)\<lparr>h_salt := None, h_type := ''aes128gcm'',
             h_salt := Some (randomBytes demo_crypto KEY_LENGTH)\<rparr>)
           = Inr (replicate 16 7 @ [0, 0, 16, 0, 0])"
    unfolding h by (rule demo_encodeHeader)
  have rs: "determineRecordSize (p_rs ?p) ''aes128gcm'' = Inr 4096"
    by (simp add: determineRecordSize_def parseInt_def demo_params_def)
  have k: "deriveKeyAndNonce demo_crypto empty_keystore
             ((demo_header ''aesgcm'' 4096)\<lparr>h_salt := None, h_type := ''aes128gcm'',
               h_salt := Some (randomBytes demo_crypto KEY_LENGTH), h_rs := 4096\<rparr>) MODE_ENCRYPT
           = Inr demo_key"
    unfolding h' by (rule demo_derive_header) simp
  have r: "encryptRecord demo_crypto demo_key 0 data 0 2
             = Inr ([1, 1] @ map (\<lambda>b. b + 1) data @ replicate 16 7)"
    using demo_record [of 0 0 2 data] by (simp add: be_bytes_2 replicate_11 replicate_16)
  have s: "slice data 0 (int (length data)) = data" by (simp add: slice_nonneg)
  have m: "min (4094::int) (int (length data)) = int (length data)" using assms by simp
  have "encrypt_loop demo_crypto demo_key 4096 2 data 0 0 0 (replicate 16 7 @ [0, 0, 16, 0, 0])
          = Inr ((replicate 16 7 @ [0, 0, 16, 0, 0]) @ [1, 1] @ map (\<lambda>b. b + 1) data @ replicate 16 7, 0)"
    using assms by (subst encrypt_loop.simps) (simp add: shl1_16 m s r encrypt_loop_done)
  then have "encrypt_records demo_crypto demo_key 4096 2 data 0 (replicate 16 7 @ [0, 0, 16, 0, 0])
          = Inr (replicate 16 7 @ [0, 0, 16, 0, 0] @ [1, 1] @ map (\<lambda>b. b + 1) data @ replicate 16 7)"
    by (simp add: encrypt_records_def)
  then show ?thesis
    using encrypt_aes128gcm [OF t demo_parseParams_nosalt e rs k, of data]
    by (simp add: demo_params_def parseInt_def)
qed

lemma first_pad_byte_hd: "hd (be_bytes 2 v) = (word_of_nat (v div 256) :: byte)"
proof -
  have "(word_of_nat (v div 256 mod 256) :: byte) = word_of_nat (v div 256)"
    by (simp add: word_of_nat_eq_iff take_bit_eq_mod)
  then show ?thesis by (simp add: be_bytes_2)
qed

lemma bit7:
  assumes "x < 256"
  shows "bit (x::nat) 7 \<longleftrightarrow> 128 \<le> x"
proof (cases "x < 128")
  case True
  then have "x div 128 = 0" by simp
  then show ?thesis using True by (simp add: bit_iff_odd)
next
  case False
  then have "x div 128 = 1" using assms by linarith
  then show ?thesis using False by (simp add: bit_iff_odd)
qed

lemma first_pad_byte_bit:
  assumes "v < 65536"
  shows "bit (hd (be_bytes 2 v)) 7 \<longleftrightarrow> 32768 \<le> v"
proof -
  have lt: "v div 256 < 256" using assms by simp
  have "bit (word_of_nat (v div 256) :: byte) 7 \<longleftrightarrow> bit (v div 256) 7"
    by (simp add: bit_of_nat_iff)
  also have "\<dots> \<longleftrightarrow> 128 \<le> v div 256" using lt by (rule bit7)
  also have "\<dots> \<longleftrightarrow> 32768 \<le> v" by linarith
  finally show ?thesis by (simp only: first_pad_byte_hd)
qed

text \<open>
  Claim C2, as the code has it. For \<open>aes128gcm\<close> a record is written and read like a
  record of \<open>aesgcm\<close>: \<open>encryptRecord\<close> encrypts the 2-byte big-endian pad count, that many
  zero bytes and the data, whatever the position of the record, so that the high bit of
  the first padding byte is bit 15 of the pad count (set exactly when the pad is 32768
  or more); and \<open>decryptRecord\<close> reads the two bytes as the pad count, with no mask and
  no check of a last-record flag, returning the data of such a record.
\<close>

theorem aes128gcm_no_delimiter:
  assumes "h_type hdr = ''aes128gcm''"
    and "generateNonce (kn_nonce key) i = Inr nonce"
    and "0 \<le> pad" and "pad < 65536"
    and "gcm_encrypt c (kn_key key) nonce (be_bytes 2 (nat pad) @ replicate (nat pad) 0 @ data)
           = (ct, tag)"
    and "length tag = 16"
    and "gcm_decrypt c (kn_key key) nonce ct tag
           = Some (be_bytes 2 (nat pad) @ replicate (nat pad) 0 @ data)"
  shows "encryptRecord c key i data pad 2 = Inr (ct @ tag) \<and>
         (bit (hd (be_bytes 2 (nat pad))) 7 \<longleftrightarrow> 32768 \<le> pad) \<and>
         decryptRecord c key i (ct @ tag) hdr = Inr data"
proof -
  have ps: "PAD_SIZE (h_type hdr) = Some 2" using assms(1) by (simp add: PAD_SIZE_def)
  have p: "pad < 2 ^ (8 * 2)" using assms(4) by simp
  have "padding_block pad 2 = Inr (be_bytes 2 (nat pad) @ replicate (nat pad) 0)"
    using assms(3) p by (rule padding_block_ok)
  then have e: "encryptRecord c key i data pad 2 = Inr (ct @ tag)"
    using assms(2,5,6) by (simp add: encryptRecord_def TAG_LENGTH_def)
  have b: "bit (hd (be_bytes 2 (nat pad))) 7 \<longleftrightarrow> 32768 \<le> pad"
  proof -
    have "nat pad < 65536" using assms(4) by simp
    then have "bit (hd (be_bytes 2 (nat pad))) 7 \<longleftrightarrow> 32768 \<le> nat pad"
      by (rule first_pad_byte_bit)
    also have "\<dots> \<longleftrightarrow> 32768 \<le> pad" using assms(3) by linarith
    finally show ?thesis .
  qed
  have d: "decryptRecord c key i (ct @ tag) hdr = Inr data"
    using assms(2,6,7) ps assms(3) p by (rule decryptRecord_padded)
  show ?thesis using e b d by simp
qed


text \<open>
  Claim C2 as stated fails: the \<open>aes128gcm\<close> encryption of the empty plaintext is the
  header and one record, the last one; under the key and nonce of that encryption the
  record is the encryption of the two bytes \<open>00 00\<close>, so the high bit of its first padding
  byte is clear; and \<open>decryptRecord\<close> accepts that record.
\<close>

theorem aes128gcm_last_record_flag_clear:
  "encrypt demo_crypto empty_keystore [] (demo_params None Undefined Undefined)
     = Inr (replicate 16 7 @ [0, 0, 16, 0, 0] @ [1, 1] @ replicate 16 7) \<and>
   deriveKeyAndNonce demo_crypto empty_keystore (demo_header ''aes128gcm'' 4096) MODE_ENCRYPT
     = Inr demo_key \<and>
   generateNonce (kn_nonce demo_key) 0 = Inr (replicate 11 7 @ [7]) \<and>
   gcm_decrypt demo_crypto (kn_key demo_key) (replicate 11 7 @ [7]) [1, 1] (replicate 16 7)
     = Some [0, 0] \<and>
   decryptRecord demo_crypto demo_key 0 ([1, 1] @ replicate 16 7) (demo_header ''aes128gcm'' 4096)
     = Inr []"
proof -
  have k: "deriveKeyAndNonce demo_crypto empty_keystore (demo_header ''aes128gcm'' 4096) MODE_ENCRYPT
     = Inr demo_key"
    by (rule demo_derive_header) simp
  have n: "generateNonce (kn_nonce demo_key) 0 = Inr (replicate 11 7 @ [7])"
    using demo_nonce [of 0] by simp
  have d: "gcm_decrypt demo_crypto (kn_key demo_key) (replicate 11 7 @ [7]) [1, 1] (replicate 16 7)
     = Some [0, 0]"
    by (simp add: demo_gcm_decrypt_def demo_tag_key) (simp add: replicate_11 replicate_16)
  have ps: "PAD_SIZE (h_type (demo_header ''aes128gcm'' 4096)) = Some 2"
    by (simp add: demo_header_def PAD_SIZE_def)
  have r: "decryptRecord demo_crypto demo_key 0 ([1, 1] @ replicate 16 7) (demo_header ''aes128gcm'' 4096)
     = Inr []"
    using decryptRecord_cases [OF n demo_record_decrypt ps, of "[1, 1]"]
    by (simp add: be_value_def)
  show ?thesis
    using demo_encrypt_aes128gcm [of "[]"] k n d r by simp
qed

theorem aes128gcm_no_delimiter_witness:
  "h_type (demo_header ''aes128gcm'' 4096) = ''aes128gcm'' \<and>
   generateNonce (kn_nonce demo_key) 0 = Inr (replicate 11 7 @ [7]) \<and>
   gcm_encrypt demo_crypto (kn_key demo_key) (replicate 11 7 @ [7])
       (be_bytes 2 (nat 1) @ replicate (nat 1) 0 @ [5])
     = ([1, 2, 1, 6], replicate 16 7) \<and>
   gcm_decrypt demo_crypto (kn_key demo_key) (replicate 11 7 @ [7]) [1, 2, 1, 6] (replicate 16 7)
     = Some (be_bytes 2 (nat 1) @ replicate (nat 1) 0 @ [5]) \<and>
   encryptRecord demo_crypto demo_key 0 [5] 1 2 = Inr ([1, 2, 1, 6] @ replicate 16 7) \<and>
   (bit (hd (be_bytes 2 (nat 1))) 7 \<longleftrightarrow> 32768 \<le> (1::int)) \<and>
   decryptRecord demo_crypto demo_key 0 ([1, 2, 1, 6] @ replicate 16 7) (demo_header ''aes128gcm'' 4096)
     = Inr [5]"
proof -
  have t: "h_type (demo_header ''aes128gcm'' 4096) = ''aes128gcm''" by (simp add: demo_header_def)
  have n: "generateNonce (kn_nonce demo_key) 0 = Inr (replicate 11 7 @ [7])"
    using demo_nonce [of 0] by simp
  have p: "be_bytes 2 (nat 1) @ replicate (nat 1) 0 @ [5] = [0, 1, 0, 5 :: byte]"
    by (simp add: be_bytes_2)
  have e: "gcm_encrypt demo_crypto (kn_key demo_key) (replicate 11 7 @ [7])
             (be_bytes 2 (nat 1) @ replicate (nat 1) 0 @ [5]) = ([1, 2, 1, 6], replicate 16 7)"
    unfolding p by (simp add: demo_gcm_encrypt_def demo_tag_key) (simp add: replicate_11 replicate_16)
  have d: "gcm_decrypt demo_crypto (kn_key demo_key) (replicate 11 7 @ [7]) [1, 2, 1, 6] (replicate 16 7)
             = Some (be_bytes 2 (nat 1) @ replicate (nat 1) 0 @ [5])"
    unfolding p by (simp add: demo_gcm_decrypt_def demo_tag_key) (simp add: replicate_11 replicate_16)
  have l: "length (replicate 16 (7::byte)) = 16" by simp
  have a: "(0::int) \<le> 1" and b: "(1::int) < 65536" by simp_all
  from t n e d aes128gcm_no_delimiter [OF t n a b e l d] show ?thesis by blast
qed

lemma extractSecretAndContext_auth:
  assumes "h_key hdr = Some k" and "length k = 16" and "h_authSecret hdr = Some a"
  shows "extractSecretAndContext c ks hdr m =
           (case HKDF c (b64decode c (buf_toString c a)) k (info ''auth'' []) 32 of
              Inl e \<Rightarrow> Inl e
            | Inr s \<Rightarrow> Inr \<lparr>sc_secret = Val (KeyBuffer s), sc_context = []\<rparr>)"
  using assms unfolding extractSecretAndContext_def KEY_LENGTH_def SHA_256_LENGTH_def
  by (simp add: hmac_input_def cong: sum.case_cong split: sum.splits)

lemma deriveKeyAndNonce_from_secret:
  assumes "h_salt hdr = Some salt"
    and "extractSecretAndContext c ks hdr m = Inr \<lparr>sc_secret = Val (KeyBuffer ikm), sc_context = ctx\<rparr>"
    and "(h_type hdr = ''aesgcm128'' \<and> keyInfo = bytes_of_string ''Content-Encoding: aesgcm128''
            \<and> nonceInfo = bytes_of_string ''Content-Encoding: nonce'') \<or>
         (h_type hdr = ''aesgcm'' \<and> keyInfo = info ''aesgcm'' ctx \<and> nonceInfo = info ''nonce'' ctx) \<or>
         (h_type hdr = ''aes128gcm''
            \<and> keyInfo = bytes_of_string (''Content-Encoding: aesgcm128'' @ [CHR 0x00])
            \<and> nonceInfo = bytes_of_string (''Content-Encoding: nonce'' @ [CHR 0x00]))"
  shows "deriveKeyAndNonce c ks hdr m =
           (case HKDF_expand c (HKDF_extract c salt ikm) keyInfo 16 of
              Inl e \<Rightarrow> Inl e
            | Inr key \<Rightarrow>
                (case HKDF_expand c (HKDF_extract c salt ikm) nonceInfo 12 of
                   Inl e \<Rightarrow> Inl e
                 | Inr n \<Rightarrow> Inr \<lparr>kn_key = key, kn_nonce = n\<rparr>))"
  using assms unfolding deriveKeyAndNonce_def KEY_LENGTH_def NONCE_LENGTH_def
  by (auto simp: hmac_input_def Let_def cong: sum.case_cong)

lemma info_auth: "info ''auth'' [] = bytes_of_string ''Content-Encoding: auth'' @ [0]"
  by (simp add: info_def bytes_of_string_def)

text \<open>
  Claim C4, as the code runs. With an explicit key and an \<open>authSecret\<close> in the header,
  the input keying material is replaced by \<open>HKDF(salt, IKM, "Content-Encoding: auth\0", 32)\<close>,
  then \<open>PRK = HMAC(salt, IKM)\<close>, the content key is \<open>expand(PRK, keyInfo, 16)\<close> and the
  nonce base \<open>expand(PRK, nonceInfo, 12)\<close>. But the salt of the first HKDF is not the
  header's \<open>authSecret\<close>: it is \<open>base64.decode\<close> applied to it, although \<open>parseParams\<close> and
  \<open>readHeader\<close> have decoded the parameter already (as they have the key and the share,
  which are then used as they are).
\<close>

theorem key_schedule_authSecret:
  assumes "h_salt hdr = Some salt" and "h_key hdr = Some k" and "length k = 16"
    and "h_authSecret hdr = Some a"
    and "(h_type hdr = ''aesgcm128'' \<and> keyInfo = bytes_of_string ''Content-Encoding: aesgcm128''
            \<and> nonceInfo = bytes_of_string ''Content-Encoding: nonce'') \<or>
         (h_type hdr = ''aesgcm'' \<and> keyInfo = info ''aesgcm'' [] \<and> nonceInfo = info ''nonce'' []) \<or>
         (h_type hdr = ''aes128gcm''
            \<and> keyInfo = bytes_of_string (''Content-Encoding: aesgcm128'' @ [CHR 0x00])
            \<and> nonceInfo = bytes_of_string (''Content-Encoding: nonce'' @ [CHR 0x00]))"
  shows "info ''auth'' [] = bytes_of_string ''Content-Encoding: auth'' @ [0] \<and>
         extractSecretAndContext c ks hdr m =
           (case HKDF c (b64decode c (buf_toString c a)) k (info ''auth'' []) 32 of
              Inl e \<Rightarrow> Inl e
            | Inr ikm \<Rightarrow> Inr \<lparr>sc_secret = Val (KeyBuffer ikm), sc_context = []\<rparr>) \<and>
         deriveKeyAndNonce c ks hdr m =
           (case HKDF c (b64decode c (buf_toString c a)) k (info ''auth'' []) 32 of
              Inl e \<Rightarrow> Inl e
            | Inr ikm \<Rightarrow>
                (case HKDF_expand c (HKDF_extract c salt ikm) keyInfo 16 of
                   Inl e \<Rightarrow> Inl e
                 | Inr key \<Rightarrow>
                     (case HKDF_expand c (HKDF_extract c salt ikm) nonceInfo 12 of
                        Inl e \<Rightarrow> Inl e
                      | Inr n \<Rightarrow> Inr \<lparr>kn_key = key, kn_nonce = n\<rparr>)))"
proof -
  note s = extractSecretAndContext_auth [OF assms(2,3,4), of c ks m]
  show ?thesis
  proof (cases "HKDF c (b64decode c (buf_toString c a)) k (info ''auth'' []) 32")
    case (Inl e)
    then have "extractSecretAndContext c ks hdr m = Inl e" using s by simp
    then have "deriveKeyAndNonce c ks hdr m = Inl e"
      using assms(1) by (simp add: deriveKeyAndNonce_def)
    then show ?thesis using s Inl info_auth by simp
  next
    case (Inr ikm)
    then have e: "extractSecretAndContext c ks hdr m
        = Inr \<lparr>sc_secret = Val (KeyBuffer ikm), sc_context = []\<rparr>"
      using s by simp
    show ?thesis
      using deriveKeyAndNonce_from_secret [OF assms(1) e assms(5)] s Inr info_auth by simp
  qed
qed

lemma demo_HKDF_32:
  assumes "length ikm = 16" and "length salt \<le> 16"
  shows "HKDF demo_crypto salt ikm nfo 32 = Inr (salt @ ikm @ replicate (16 - length salt) 0)"
proof -
  have x: "HKDF_extract demo_crypto salt ikm = salt @ ikm @ replicate (16 - length salt) 0"
    using assms by (simp add: HKDF_extract_def HMAC_hash_def demo_hmac_def)
  have "HKDF_expand demo_crypto (salt @ ikm @ replicate (16 - length salt) 0) nfo 32
          = Inr (salt @ ikm @ replicate (16 - length salt) 0)"
    using HKDF_expand_one [OF demo_hmac_length, of 32 "salt @ ikm @ replicate (16 - length salt) 0" nfo]
      assms
    by (simp add: demo_hmac_def)
  then show ?thesis by (simp add: HKDF_def x)
qed

lemma demo_b64_auth:
  "demo_b64decode ''QUFBQQ'' = [65, 65, 65, 65]"
  "demo_toString [65, 65, 65, 65] = ''AAAA''"
  "demo_b64decode ''AAAA'' = [0, 0, 0]"
  by code_simp+

theorem key_schedule_authSecret_witness:
  "b64decode demo_crypto ''QUFBQQ'' = [65, 65, 65, 65] \<and>
   h_authSecret ((demo_header ''aesgcm'' 4096)\<lparr>h_authSecret := Some [65, 65, 65, 65]\<rparr>)
     = Some [65, 65, 65, 65] \<and>
   b64decode demo_crypto (buf_toString demo_crypto [65, 65, 65, 65]) = [0, 0, 0] \<and>
   extractSecretAndContext demo_crypto empty_keystore
       ((demo_header ''aesgcm'' 4096)\<lparr>h_authSecret := Some [65, 65, 65, 65]\<rparr>) MODE_DECRYPT
     = Inr \<lparr>sc_secret = Val (KeyBuffer ([0, 0, 0] @ replicate 16 0 @ replicate 13 0)),
            sc_context = []\<rparr> \<and>
   HKDF demo_crypto [65, 65, 65, 65] (replicate 16 0) (info ''auth'' []) 32
     = Inr ([65, 65, 65, 65] @ replicate 16 0 @ replicate 12 0)"
proof -
  let ?h = "(demo_header ''aesgcm'' 4096)\<lparr>h_authSecret := Some [65, 65, 65, 65]\<rparr>"
  have s: "h_salt ?h = Some (replicate 16 7)" and k: "h_key ?h = Some (replicate 16 0)"
    and a: "h_authSecret ?h = Some [65, 65, 65, 65]"
    by (simp_all add: demo_header_def)
  have l: "length (replicate 16 (0::byte)) = 16" by simp
  have t: "(h_type ?h = ''aesgcm128'' \<and> info ''aesgcm'' [] = bytes_of_string ''Content-Encoding: aesgcm128''
            \<and> info ''nonce'' [] = bytes_of_string ''Content-Encoding: nonce'') \<or>
         (h_type ?h = ''aesgcm'' \<and> info ''aesgcm'' [] = info ''aesgcm'' []
            \<and> info ''nonce'' [] = info ''nonce'' []) \<or>
         (h_type ?h = ''aes128gcm''
            \<and> info ''aesgcm'' [] = bytes_of_string (''Content-Encoding: aesgcm128'' @ [CHR 0x00])
            \<and> info ''nonce'' [] = bytes_of_string (''Content-Encoding: nonce'' @ [CHR 0x00]))"
    by (simp add: demo_header_def)
  have h1: "HKDF demo_crypto [0, 0, 0] (replicate 16 0) (info ''auth'' []) 32
              = Inr ([0, 0, 0] @ replicate 16 0 @ replicate 13 0)"
    using demo_HKDF_32 [of "replicate 16 0" "[0, 0, 0]"] by simp
  have h2: "HKDF demo_crypto [65, 65, 65, 65] (replicate 16 0) (info ''auth'' []) 32
              = Inr ([65, 65, 65, 65] @ replicate 16 0 @ replicate 12 0)"
    using demo_HKDF_32 [of "replicate 16 0" "[65, 65, 65, 65]"] by simp
  have d: "b64decode demo_crypto (buf_toString demo_crypto [65, 65, 65, 65]) = [0, 0, 0]"
    by (simp add: demo_b64_auth)
  have "extractSecretAndContext demo_crypto empty_keystore ?h MODE_DECRYPT
     = Inr \<lparr>sc_secret = Val (KeyBuffer ([0, 0, 0] @ replicate 16 0 @ replicate 13 0)),
            sc_context = []\<rparr>"
    using key_schedule_authSecret [OF s k l a t, of demo_crypto empty_keystore MODE_DECRYPT]
    unfolding d h1 by simp
  then show ?thesis
    using a d h2 by (simp add: demo_b64_auth)
qed

text \<open>
  Claim C1 fails for \<open>aes128gcm\<close>. Without a salt in its parameters \<open>decrypt\<close> calls
  \<open>readHeader(buffer, params)\<close>, whose parameters are \<open>(params, buffer)\<close>: the header is
  read from the parameter object, which has no \<open>readUIntBE\<close>, and every such call throws
  a TypeError, also on what \<open>encrypt\<close> has just produced.
\<close>

theorem decrypt_aes128gcm_TypeError:
  assumes "\<not> truthy (p_salt p)"
  shows "decrypt c ks buf p = Inl TypeError"
  using assms by (simp add: decrypt_def readHeader_def)

theorem decrypt_aes128gcm_TypeError_witness:
  "\<not> truthy (p_salt (demo_params None Undefined Undefined)) \<and>
   encrypt demo_crypto empty_keystore [5] (demo_params None Undefined Undefined)
     = Inr (replicate 16 7 @ [0, 0, 16, 0, 0] @ [1, 1] @ [6] @ replicate 16 7) \<and>
   decrypt demo_crypto empty_keystore (replicate 16 7 @ [0, 0, 16, 0, 0] @ [1, 1] @ [6] @ replicate 16 7)
       (demo_params None Undefined Undefined)
     = Inl TypeError"
proof -
  have t: "\<not> truthy (p_salt (demo_params None Undefined Undefined))"
    by (simp add: demo_params_def truthy_def)
  have e: "encrypt demo_crypto empty_keystore [5] (demo_params None Undefined Undefined)
     = Inr (replicate 16 7 @ [0, 0, 16, 0, 0] @ [1, 1] @ [6] @ replicate 16 7)"
    using demo_encrypt_aes128gcm [of "[5]"] by simp
  from t e decrypt_aes128gcm_TypeError [OF t] show ?thesis by blast
qed

section \<open>Round trip of the legacy variants\<close>

lemma length_le_concat: "x \<in> set xs \<Longrightarrow> length x \<le> length (concat xs)"
  by (induction xs) auto

lemma decrypt_loop_full_record:
  assumes "start + h_rs hdr + 16 < int (length buf)" and "0 < h_rs hdr"
    and "decryptRecord c key i (slice buf start (start + h_rs hdr + 16)) hdr = Inr d"
  shows "decrypt_loop c key hdr buf i start res
           = decrypt_loop c key hdr buf (i + 1) (start + h_rs hdr + 16) (res @ d)"
  using assms
  by (subst decrypt_loop.simps) (simp add: Let_def min_def TAG_LENGTH_def)

lemma decrypt_loop_walk:
  assumes "0 < h_rs hdr" and "\<forall>j<length recs. decryptRecord c key (i + j) (fst (recs ! j)) hdr = Inr (snd (recs ! j))"
    and "\<forall>j. Suc j < length recs \<longrightarrow> int (length (fst (recs ! j))) = h_rs hdr + 16"
    and "recs \<noteq> [] \<longrightarrow> 16 < length (fst (last recs)) \<and>
                      int (length (fst (last recs))) < h_rs hdr + 16"
  shows "decrypt_loop c key hdr (pre @ concat (map fst recs)) i (int (length pre)) res
           = Inr (res @ concat (map snd recs))"
  using assms
proof (induction recs arbitrary: pre i res)
  case Nil
  then show ?case using decrypt_loop_done [of c key hdr pre i res] by simp
next
  case (Cons rd recs)
  obtain r d where rd: "rd = (r, d)" by (cases rd)
  let ?buf = "pre @ concat (map fst (rd # recs))"
  have dec: "decryptRecord c key i r hdr = Inr d"
    using Cons.prems(2) rd by fastforce
  show ?case
  proof (cases "recs = []")
    case True
    then have l: "16 < length r" "int (length r) < h_rs hdr + 16"
      using Cons.prems(4) rd by simp_all
    have buf: "?buf = pre @ r" using True rd by simp
    have s: "slice (pre @ r) (int (length pre)) (int (length (pre @ r))) = r"
      using slice_append_mid [of pre r "[]"] by simp
    have lt: "int (length pre) < int (length (pre @ r))" using l(1) by (cases r) simp_all
    have "decrypt_loop c key hdr (pre @ r) i (int (length pre)) res = Inr (res @ d)"
      using decrypt_loop_cases [OF lt, of hdr c key i res] l
      unfolding s dec by simp
    then show ?thesis using True rd buf by simp
  next
    case False
    then have l: "int (length r) = h_rs hdr + 16"
      using Cons.prems(3) [rule_format, of 0] rd by (cases recs) simp_all
    have last: "16 < length (fst (last recs))" "int (length (fst (last recs))) < h_rs hdr + 16"
      using Cons.prems(4) False by simp_all
    have "fst (last recs) \<in> set (map fst recs)" using False by simp
    then have "length (fst (last recs)) \<le> length (concat (map fst recs))"
      by (rule length_le_concat)
    then have pos: "16 < length (concat (map fst recs))" using last(1) by simp
    have buf: "?buf = pre @ r @ concat (map fst recs)" using rd by simp
    have s: "slice ?buf (int (length pre)) (int (length pre) + h_rs hdr + 16) = r"
      unfolding buf using slice_append_mid [of pre r "concat (map fst recs)"] l by (simp add: add.assoc)
    have "length ?buf = length pre + length r + length (concat (map fst recs))"
      unfolding buf by simp
    then have lt: "int (length pre) + h_rs hdr + 16 < int (length ?buf)"
      using l pos by linarith
    have e: "int (length pre) + h_rs hdr + 16 = int (length (pre @ r))" using l by simp
    have step: "decrypt_loop c key hdr ?buf i (int (length pre)) res
                  = decrypt_loop c key hdr ?buf (i + 1) (int (length (pre @ r))) (res @ d)"
      using decrypt_loop_full_record [OF lt Cons.prems(1), of c key i d res] s dec
      unfolding e by simp
    have ih: "decrypt_loop c key hdr ((pre @ r) @ concat (map fst recs)) (i + 1)
                (int (length (pre @ r))) (res @ d) = Inr ((res @ d) @ concat (map snd recs))"
    proof (rule Cons.IH [OF Cons.prems(1)])
      show "\<forall>j<length recs. decryptRecord c key (i + 1 + j) (fst (recs ! j)) hdr = Inr (snd (recs ! j))"
      proof (intro allI impI)
        fix j assume "j < length recs"
        then have "Suc j < length (rd # recs)" by simp
        from Cons.prems(2) [rule_format, OF this] show
          "decryptRecord c key (i + 1 + j) (fst (recs ! j)) hdr = Inr (snd (recs ! j))" by simp
      qed
      show "\<forall>j. Suc j < length recs \<longrightarrow> int (length (fst (recs ! j))) = h_rs hdr + 16"
      proof (intro allI impI)
        fix j assume "Suc j < length recs"
        then have "Suc (Suc j) < length (rd # recs)" by simp
        from Cons.prems(3) [rule_format, OF this] show
          "int (length (fst (recs ! j))) = h_rs hdr + 16" by simp
      qed
      show "recs \<noteq> [] \<longrightarrow> 16 < length (fst (last recs)) \<and>
              int (length (fst (last recs))) < h_rs hdr + 16"
        using last by simp
    qed
    show ?thesis
      unfolding step using ih rd by simp
  qed
qed

lemma spec_cursor_nonneg:
  assumes "int padSize < rs" and "0 \<le> pad"
  shows "0 \<le> spec_cursor rs padSize pad k"
proof (induction k)
  case 0
  show ?case by simp
next
  case (Suc k)
  then show ?case using spec_cursor_step [OF assms, of k] by linarith
qed

lemma spec_slice_take:
  assumes "int padSize < rs" and "0 \<le> pad"
    and "spec_cursor rs padSize pad k \<le> int (length m)"
  shows "spec_slice rs padSize m pad k
           = take (nat (min (spec_cursor rs padSize pad (Suc k)) (int (length m)))
                   - nat (spec_cursor rs padSize pad k))
               (drop (nat (spec_cursor rs padSize pad k)) m)"
proof -
  let ?a = "spec_cursor rs padSize pad k" and ?b = "spec_cursor rs padSize pad (Suc k)"
  have a: "0 \<le> ?a" using assms(1,2) by (rule spec_cursor_nonneg)
  have ab: "?a < ?b" using assms(1,2) by (rule spec_cursor_step)
  have e: "?a + rs - int padSize - spec_recordPad rs padSize (spec_budget rs padSize pad k) = ?b"
    by simp
  have "spec_slice rs padSize m pad k = slice m ?a (min ?b (int (length m)))"
    unfolding spec_slice_def e ..
  also have "\<dots> = take (nat (min ?b (int (length m))) - nat ?a) (drop (nat ?a) m)"
    using a ab assms(3) by (intro slice_inside) simp_all
  finally show ?thesis .
qed

lemma slices_concat:
  assumes "int padSize < rs" and "0 \<le> pad"
    and "\<forall>k<n. spec_cursor rs padSize pad k \<le> int (length m)"
  shows "j \<le> n \<Longrightarrow>
         concat (map (spec_slice rs padSize m pad) [0..<j])
           = take (nat (min (spec_cursor rs padSize pad j) (int (length m)))) m"
proof (induction j)
  case 0
  show ?case by simp
next
  case (Suc j)
  let ?a = "spec_cursor rs padSize pad j" and ?b = "spec_cursor rs padSize pad (Suc j)"
  have jn: "j < n" using Suc.prems by simp
  then have le: "?a \<le> int (length m)" using assms(3) by simp
  have a: "0 \<le> ?a" using assms(1,2) by (rule spec_cursor_nonneg)
  have ab: "?a < ?b" using assms(1,2) by (rule spec_cursor_step)
  have ih: "concat (map (spec_slice rs padSize m pad) [0..<j]) = take (nat ?a) m"
    using Suc.IH jn le by (simp add: min_def)
  define x where "x = nat ?a"
  define y where "y = nat (min ?b (int (length m)))"
  have xy: "x \<le> y" using a ab le by (simp add: x_def y_def)
  have "concat (map (spec_slice rs padSize m pad) [0..<Suc j])
          = take x m @ take (y - x) (drop x m)"
    using ih spec_slice_take [OF assms(1,2) le] by (simp add: x_def y_def)
  also have "\<dots> = take (x + (y - x)) m" by (simp add: take_add)
  also have "\<dots> = take y m" using xy by simp
  finally show ?case by (simp add: y_def)
qed

lemma encryptRecord_negative_pad: "pad < 0 \<Longrightarrow> isl (encryptRecord c key i data pad padSize)"
  by (auto simp: encryptRecord_def padding_block_def writeUIntBE_def split: sum.splits)

lemma encrypt_records_negative_pad:
  assumes "pad < 0" and "int padSize < rs" and "padSize = 1 \<or> padSize = 2"
  shows "isl (encrypt_records c key rs padSize m pad res)"
proof -
  have "shl1 (padSize * 8) - 1 = maxPad padSize" using assms(3) by (rule shl1_pad)
  moreover have "0 \<le> maxPad padSize" by (simp add: maxPad_def)
  ultimately have rp: "min (shl1 (padSize * 8) - 1) (min (rs - int padSize - 1) pad) = pad"
    using assms(1,2) by simp
  obtain e where e: "encryptRecord c key 0
      (slice m 0 (min (rs - int padSize - pad) (int (length m)))) pad padSize = Inl e"
    using encryptRecord_negative_pad [OF assms(1), of c key 0 _ padSize] by (meson isl_def)
  have "encrypt_loop c key rs padSize m 0 0 pad res = Inl e"
    by (subst encrypt_loop.simps) (simp add: Let_def rp e)
  then show ?thesis by (simp add: encrypt_records_def)
qed

lemma HKDF_expand_length:
  assumes "\<forall>k m. length (hmac c k m) = 32" and "0 \<le> l" and "l \<le> 32"
    and "HKDF_expand c prk nfo l = Inr out"
  shows "length out = nat l"
  using HKDF_expand_one [OF assms(1,2,3), of prk nfo] assms by auto

lemma deriveKeyAndNonce_lengths:
  assumes "\<forall>k m. length (hmac c k m) = 32" and "deriveKeyAndNonce c ks hdr md = Inr key"
  shows "length (kn_nonce key) = 12"
  using assms(2) unfolding deriveKeyAndNonce_def KEY_LENGTH_def NONCE_LENGTH_def
  by (auto simp: Let_def split: option.splits sum.splits if_splits prod.splits
           dest!: HKDF_expand_length [OF assms(1), rotated 2])

lemma deriveKeyAndNonce_mode:
  assumes "h_key hdr \<noteq> None \<or> h_dh hdr = None"
  shows "deriveKeyAndNonce c ks hdr MODE_ENCRYPT = deriveKeyAndNonce c ks hdr MODE_DECRYPT"
proof -
  have h: "extractSecretAndContext c ks hdr MODE_ENCRYPT = extractSecretAndContext c ks hdr MODE_DECRYPT"
    using assms by (auto simp: extractSecretAndContext_def split: option.splits)
  show ?thesis unfolding deriveKeyAndNonce_def h ..
qed

text \<open>
  The records that the loop of \<open>encrypt\<close> writes are the records that the loop of
  \<open>decrypt\<close> walks: every record but the last has \<open>rs + 16\<close> bytes, the last one is
  shorter and longer than its tag, each decrypts to the slice of the plaintext it was
  made from, and the slices together are the plaintext.
\<close>

lemma records_roundtrip:
  assumes ps: "PAD_SIZE (h_type hdr) = Some padSize" and rs: "int padSize < h_rs hdr"
    and nonce: "6 \<le> length (kn_nonce key)"
    and tag: "\<forall>k n p. length (snd (gcm_encrypt c k n p)) = 16"
    and len: "\<forall>k n p. length (fst (gcm_encrypt c k n p)) = length p"
    and inv: "\<forall>k n p. gcm_decrypt c k n (fst (gcm_encrypt c k n p)) (snd (gcm_encrypt c k n p)) = Some p"
    and enc: "encrypt_records c key (h_rs hdr) padSize m pad [] = Inr ct"
  shows "decrypt_loop c key hdr ct 0 0 [] = Inr m"
proof -
  let ?rs = "h_rs hdr"
  let ?cur = "spec_cursor ?rs padSize pad" and ?bud = "spec_budget ?rs padSize pad"
  let ?rp = "\<lambda>k. spec_recordPad ?rs padSize (?bud k)"
  let ?sl = "spec_slice ?rs padSize m pad"
  let ?R = "\<lambda>k. projr (spec_record c key ?rs padSize m pad k)"
  note ps12 = PAD_SIZE_cases [OF ps]
  have pad: "0 \<le> pad"
  proof (rule ccontr)
    assume "\<not> 0 \<le> pad"
    then have "isl (encrypt_records c key ?rs padSize m pad [])"
      using encrypt_records_negative_pad [OF _ rs ps12] by simp
    with enc show False by simp
  qed
  from encrypt_loop_trace [OF ps12 rs pad nonce tag, of 0 m "[]"] obtain n where
    n: "\<forall>k. 0 \<le> k \<and> k < n \<longrightarrow> ?cur k \<le> int (length m)"
       "int (length m) < ?cur n"
       "encrypt_loop c key ?rs padSize m 0 (?cur 0) (?bud 0) []
          = Inr ([] @ concat (map ?R [0..<n]), ?bud n)"
    by blast
  have inside: "\<forall>k<n. ?cur k \<le> int (length m)" using n(1) by simp
  have ct: "ct = concat (map ?R [0..<n])"
    using enc n(3) by (simp add: encrypt_records_def split: if_splits)
  have n0: "n \<noteq> 0" using n(2) by (cases n) simp_all
  have bud: "0 \<le> ?bud k" for k using pad rs by (rule spec_budget_nonneg)
  note rpb = spec_recordPad_bounds [OF bud rs]
  have rec: "spec_record c key ?rs padSize m pad k = Inr (?R k) \<and>
             decryptRecord c key k (?R k) hdr = Inr (?sl k) \<and>
             length (?R k) = padSize + nat (?rp k) + length (?sl k) + 16" for k
  proof -
    from record_roundtrip [OF nonce tag inv ps rpb(1,2), of k "?sl k"] obtain r where
      r: "encryptRecord c key k (?sl k) (?rp k) padSize = Inr r"
         "decryptRecord c key k r hdr = Inr (?sl k)"
      by blast
    have "length r = padSize + nat (?rp k) + length (?sl k) + 16"
      using r(1) rpb(1,2) len by (rule length_encryptRecord)
    then show ?thesis using r by (simp add: spec_record_def)
  qed
  have sl_len: "int (length (?sl k)) = min (?cur (Suc k)) (int (length m)) - ?cur k" if "k < n" for k
  proof -
    have le: "?cur k \<le> int (length m)" using inside that by simp
    have a: "0 \<le> ?cur k" using rs pad by (rule spec_cursor_nonneg)
    have ab: "?cur k < ?cur (Suc k)" using rs pad by (rule spec_cursor_step)
    define a b where "a = ?cur k" and "b = ?cur (Suc k)"
    have "length (?sl k) = min (length m - nat a) (nat (min b (int (length m))) - nat a)"
      unfolding spec_slice_take [OF rs pad le] a_def b_def by simp
    moreover have "0 \<le> a" "a < b" "a \<le> int (length m)"
      using a ab le by (simp_all add: a_def b_def)
    ultimately have "int (length (?sl k)) = min b (int (length m)) - a"
      by (simp add: min_def) linarith
    then show ?thesis by (simp only: a_def b_def)
  qed
  have full: "int (length (?R k)) = ?rs + 16" if "Suc k < n" for k
  proof -
    have "?cur (Suc k) \<le> int (length m)" using inside that by blast
    then have "int (length (?sl k)) = ?rs - int padSize - ?rp k"
      using sl_len [of k] that by simp
    then show ?thesis using rec [of k] rpb(1) [of k] by simp
  qed
  have short: "16 < length (?R (n - 1)) \<and> int (length (?R (n - 1))) < ?rs + 16"
  proof -
    have k: "n - 1 < n" "Suc (n - 1) = n" using n0 by simp_all
    have le: "?cur (n - 1) \<le> int (length m)" using inside k(1) by blast
    have "int (length (?sl (n - 1))) = int (length m) - ?cur (n - 1)"
      using sl_len [OF k(1)] n(2) k(2) by simp
    moreover have "?cur n = ?cur (n - 1) + (?rs - int padSize - ?rp (n - 1))"
      using spec_cursor.simps(2) [of ?rs padSize pad "n - 1"] k(2) by simp
    ultimately have "int (length (?sl (n - 1))) < ?rs - int padSize - ?rp (n - 1)"
      using n(2) by linarith
    moreover have "0 < padSize" using ps12 by auto
    ultimately show ?thesis using rec [of "n - 1"] rpb(1) [of "n - 1"] by simp
  qed
  define recs where "recs = map (\<lambda>k. (?R k, ?sl k)) [0..<n]"
  have lr: "length recs = n" by (simp add: recs_def)
  have nth: "recs ! j = (?R j, ?sl j)" if "j < n" for j
    using that by (simp add: recs_def)
  have lastr: "last recs = (?R (n - 1), ?sl (n - 1))"
    using n0 by (simp add: recs_def last_map)
  have a1: "\<forall>j<length recs. decryptRecord c key (0 + j) (fst (recs ! j)) hdr = Inr (snd (recs ! j))"
    using rec by (simp add: lr nth)
  have a2: "\<forall>j. Suc j < length recs \<longrightarrow> int (length (fst (recs ! j))) = ?rs + 16"
    using full by (simp add: lr nth)
  have a3: "recs \<noteq> [] \<longrightarrow> 16 < length (fst (last recs)) \<and>
              int (length (fst (last recs))) < ?rs + 16"
    using short by (simp add: lastr)
  have rs0: "0 < ?rs" using rs by simp
  have f: "concat (map fst recs) = ct" by (simp add: recs_def ct comp_def)
  have "concat (map snd recs) = concat (map ?sl [0..<n])" by (simp add: recs_def comp_def)
  also have "\<dots> = take (nat (min (?cur n) (int (length m)))) m"
    using slices_concat [OF rs pad inside, of n] by simp
  also have "\<dots> = m" using n(2) by (simp add: min_def)
  finally have s: "concat (map snd recs) = m" .
  show ?thesis
    using decrypt_loop_walk [OF rs0 a1 a2 a3, of "[]" "[]"] by (simp add: f s)
qed

lemma parseParams_pad: "parseParams c (p\<lparr>p_pad := x\<rparr>) = parseParams c p"
  by (simp add: parseParams_def Let_def cong: sum.case_cong)

lemma encrypt_legacy_cases:
  assumes "truthy (p_salt p)" and "parseParams c p = Inr hdr"
    and "PAD_SIZE (h_type hdr) = Some padSize"
  shows "encrypt c ks buf p =
           (case deriveKeyAndNonce c ks hdr MODE_ENCRYPT of
              Inl e \<Rightarrow> Inl e
            | Inr key \<Rightarrow>
                encrypt_records c key (h_rs hdr) padSize buf
                  (case parseInt (p_pad p) of None \<Rightarrow> 0 | Some n \<Rightarrow> n) [])"
  using assms parseParams_fields(3) [OF assms(2)]
  by (simp add: encrypt_def Let_def split: sum.splits)

text \<open>
  Round trip of the legacy variants. With a salt in the parameters, and an explicit key
  or no share, whatever \<open>encrypt\<close> returns is decrypted by \<open>decrypt\<close>, under the same
  parameters without \<open>pad\<close>, to the plaintext. The collaborators are assumed to be what
  they are: a 32-byte digest, and a cipher whose ciphertext has the length of its
  plaintext, whose tag has 16 bytes and whose decipher inverts it.
\<close>

lemma legacy_roundtrip:
  assumes hm: "\<forall>k m. length (hmac c k m) = 32"
    and tag: "\<forall>k n p. length (snd (gcm_encrypt c k n p)) = 16"
    and len: "\<forall>k n p. length (fst (gcm_encrypt c k n p)) = length p"
    and inv: "\<forall>k n p. gcm_decrypt c k n (fst (gcm_encrypt c k n p)) (snd (gcm_encrypt c k n p)) = Some p"
    and salt: "truthy (p_salt p)"
    and key: "truthy (p_key p) \<or> \<not> truthy (p_dh p)"
    and enc: "encrypt c ks m p = Inr ct"
  shows "decrypt c ks ct (p\<lparr>p_pad := Undefined\<rparr>) = Inr m"
proof -
  obtain hdr where hdr: "parseParams c p = Inr hdr"
    using enc by (cases "parseParams c p") (simp_all add: encrypt_def)
  note f = parseParams_fields [OF hdr]
  have "h_type hdr = ''aesgcm128'' \<or> h_type hdr = ''aesgcm''"
    using f(2) by (cases "p_padSize p = Number 1") simp_all
  then obtain padSize where ps: "PAD_SIZE (h_type hdr) = Some padSize"
    by (auto simp: PAD_SIZE_def)
  note e = encrypt_legacy_cases [OF salt hdr ps, of ks m]
  obtain k where k: "deriveKeyAndNonce c ks hdr MODE_ENCRYPT = Inr k"
    using enc e by (cases "deriveKeyAndNonce c ks hdr MODE_ENCRYPT") simp_all
  have recs: "encrypt_records c k (h_rs hdr) padSize m
                (case parseInt (p_pad p) of None \<Rightarrow> 0 | Some n \<Rightarrow> n) [] = Inr ct"
    using enc e k by simp
  have rs: "int padSize < h_rs hdr"
    using ps f(3) by (rule determineRecordSize_above)
  have "h_key hdr \<noteq> None \<or> h_dh hdr = None"
    using key f(4,5) by (auto simp: decode_opt_def)
  then have k': "deriveKeyAndNonce c ks hdr MODE_DECRYPT = Inr k"
    using k deriveKeyAndNonce_mode [of hdr c ks] by simp
  have n: "6 \<le> length (kn_nonce k)"
    using deriveKeyAndNonce_lengths [OF hm k] by simp
  have loop: "decrypt_loop c k hdr ct 0 0 [] = Inr m"
    using ps rs n tag len inv recs by (rule records_roundtrip)
  have "truthy (p_salt (p\<lparr>p_pad := Undefined\<rparr>))" using salt by simp
  moreover have "parseParams c (p\<lparr>p_pad := Undefined\<rparr>) = Inr hdr"
    using hdr by (simp add: parseParams_pad)
  ultimately have "decrypt c ks ct (p\<lparr>p_pad := Undefined\<rparr>) = decrypt_loop c k hdr ct 0 0 []"
    using k' by (rule decrypt_legacy)
  then show ?thesis using loop by simp
qed

lemma legacy_roundtrip_demo:
  "encrypt demo_crypto empty_keystore [5]
       (demo_params (Some ''BwcHBwcHBwcHBwcHBwcHBw'') (Number 4294967296) Undefined)
     = Inr ([1, 1, 6] @ replicate 16 7) \<and>
   decrypt demo_crypto empty_keystore ([1, 1, 6] @ replicate 16 7)
       ((demo_params (Some ''BwcHBwcHBwcHBwcHBwcHBw'') (Number 4294967296) Undefined)\<lparr>p_pad := Undefined\<rparr>)
     = Inr [5]"
proof -
  let ?p = "demo_params (Some ''BwcHBwcHBwcHBwcHBwcHBw'') (Number 4294967296) Undefined"
  have s: "truthy (p_salt ?p)" by (simp add: demo_params_def truthy_def)
  have k: "truthy (p_key ?p) \<or> \<not> truthy (p_dh ?p)" by (simp add: demo_params_def truthy_def)
  have rs: "determineRecordSize (Number 4294967296) ''aesgcm'' = Inr 4294967296"
    by (simp add: determineRecordSize_def parseInt_def PAD_SIZE_def)
  have d: "deriveKeyAndNonce demo_crypto empty_keystore (demo_header ''aesgcm'' 4294967296)
             MODE_ENCRYPT = Inr demo_key"
    by (rule demo_derive_header) simp
  have e: "encrypt demo_crypto empty_keystore [5] ?p = Inr ([1, 1, 6] @ replicate 16 7)"
    using encrypt_legacy [OF s demo_parseParams [OF rs, of Undefined] d demo_header_type, of "[5]"]
    by (simp add: demo_encrypt_big_rs demo_params_def parseInt_def demo_header_def)
  from e legacy_roundtrip [OF demo_hmac_length demo_tag_length demo_ct_length demo_inverse s k e]
  show ?thesis by blast
qed

section \<open>Padding on encrypt\<close>

text \<open>
  Claim C5. \<open>encrypt\<close> with a pad budget from 0 to \<open>2^53\<close> (what \<open>parseInt\<close> reads in
  \<open>params.pad\<close>, 0 when it reads no number), for the legacy variants and for \<open>aes128gcm\<close>,
  once the parameters are accepted and the key is derived: the result is the header (for
  \<open>aes128gcm\<close>) followed by the records \<open>0, ..., n - 1\<close>, where \<open>n\<close> is the first index whose
  cursor is past the end of the plaintext. Record \<open>k\<close> carries the pad
  \<open>min(2^(8 padSize) - 1, rs - padSize - 1, budget)\<close> of the budget left before it and the
  plaintext from the cursor on, and the cursor then advances by
  \<open>rs - padSize - recordPad\<close>; a budget left after record \<open>n - 1\<close> makes \<open>encrypt\<close> fail with
  the error that reports what is left.
\<close>

theorem encrypt_padding:
  assumes "\<forall>k m. length (hmac c k m) = 32"
    and "\<forall>k n p. length (snd (gcm_encrypt c k n p)) = 16"
    and "pad = (case parseInt (p_pad p) of None \<Rightarrow> 0 | Some n \<Rightarrow> n)"
    and "0 \<le> pad" and "pad \<le> 2 ^ 53"
  shows
   "(\<forall>hdr padSize key.
       truthy (p_salt p) \<and> parseParams c p = Inr hdr \<and> PAD_SIZE (h_type hdr) = Some padSize \<and>
       deriveKeyAndNonce c ks hdr MODE_ENCRYPT = Inr key \<longrightarrow>
       (\<exists>n. (\<forall>k<n. spec_cursor (h_rs hdr) padSize pad k \<le> int (length buffer)) \<and>
            int (length buffer) < spec_cursor (h_rs hdr) padSize pad n \<and>
            (\<forall>k. \<not> isl (spec_record c key (h_rs hdr) padSize buffer pad k)) \<and>
            encrypt c ks buffer p =
              (if spec_budget (h_rs hdr) padSize pad n \<noteq> 0
               then Inl (UnableToPad (spec_budget (h_rs hdr) padSize pad n))
               else Inr (concat (map (\<lambda>k. projr (spec_record c key (h_rs hdr) padSize buffer pad k))
                                   [0..<n]))))) \<and>
    (\<forall>hd0 hb rs key.
       \<not> truthy (p_salt p) \<and> parseParams c p = Inr hd0 \<and>
       encodeHeader (hd0\<lparr>h_type := ''aes128gcm'', h_salt := Some (randomBytes c KEY_LENGTH)\<rparr>)
         = Inr hb \<and>
       determineRecordSize (p_rs p) ''aes128gcm'' = Inr rs \<and>
       deriveKeyAndNonce c ks
         (hd0\<lparr>h_type := ''aes128gcm'', h_salt := Some (randomBytes c KEY_LENGTH), h_rs := rs\<rparr>)
         MODE_ENCRYPT = Inr key \<longrightarrow>
       (\<exists>n. (\<forall>k<n. spec_cursor rs 2 pad k \<le> int (length buffer)) \<and>
            int (length buffer) < spec_cursor rs 2 pad n \<and>
            (\<forall>k. \<not> isl (spec_record c key rs 2 buffer pad k)) \<and>
            encrypt c ks buffer p =
              (if spec_budget rs 2 pad n \<noteq> 0
               then Inl (UnableToPad (spec_budget rs 2 pad n))
               else Inr (hb @ concat (map (\<lambda>k. projr (spec_record c key rs 2 buffer pad k))
                                        [0..<n])))))"
proof (intro conjI allI impI)
  fix hdr padSize key
  assume a: "truthy (p_salt p) \<and> parseParams c p = Inr hdr \<and> PAD_SIZE (h_type hdr) = Some padSize \<and>
       deriveKeyAndNonce c ks hdr MODE_ENCRYPT = Inr key"
  then have salt: "truthy (p_salt p)" and pp: "parseParams c p = Inr hdr"
    and ps: "PAD_SIZE (h_type hdr) = Some padSize"
    and k: "deriveKeyAndNonce c ks hdr MODE_ENCRYPT = Inr key"
    by simp_all
  have rs: "int padSize < h_rs hdr"
    using ps parseParams_fields(3) [OF pp] by (rule determineRecordSize_above)
  have n: "6 \<le> length (kn_nonce key)"
    using deriveKeyAndNonce_lengths [OF assms(1) k] by simp
  have e: "encrypt c ks buffer p = encrypt_records c key (h_rs hdr) padSize buffer pad []"
    using encrypt_legacy [OF salt pp k ps, of buffer] assms(3) by simp
  from encrypt_records_trace [OF ps rs assms(4) n assms(2), of buffer "[]"] obtain m where
    m: "\<forall>k<m. spec_cursor (h_rs hdr) padSize pad k \<le> int (length buffer)"
       "int (length buffer) < spec_cursor (h_rs hdr) padSize pad m"
       "\<forall>k. \<not> isl (spec_record c key (h_rs hdr) padSize buffer pad k)"
       "encrypt_records c key (h_rs hdr) padSize buffer pad [] =
              (if spec_budget (h_rs hdr) padSize pad m \<noteq> 0
               then Inl (UnableToPad (spec_budget (h_rs hdr) padSize pad m))
               else Inr ([] @ concat (map (\<lambda>k. projr (spec_record c key (h_rs hdr) padSize buffer pad k))
                                   [0..<m])))"
    by blast
  have "encrypt c ks buffer p =
              (if spec_budget (h_rs hdr) padSize pad m \<noteq> 0
               then Inl (UnableToPad (spec_budget (h_rs hdr) padSize pad m))
               else Inr (concat (map (\<lambda>k. projr (spec_record c key (h_rs hdr) padSize buffer pad k))
                                   [0..<m])))"
    unfolding e m(4) by simp
  with m(1,2,3)
  show "\<exists>n. (\<forall>k<n. spec_cursor (h_rs hdr) padSize pad k \<le> int (length buffer)) \<and>
            int (length buffer) < spec_cursor (h_rs hdr) padSize pad n \<and>
            (\<forall>k. \<not> isl (spec_record c key (h_rs hdr) padSize buffer pad k)) \<and>
            encrypt c ks buffer p =
              (if spec_budget (h_rs hdr) padSize pad n \<noteq> 0
               then Inl (UnableToPad (spec_budget (h_rs hdr) padSize pad n))
               else Inr (concat (map (\<lambda>k. projr (spec_record c key (h_rs hdr) padSize buffer pad k))
                                   [0..<n])))"
    by blast
next
  fix hd0 hb rs key
  assume a: "\<not> truthy (p_salt p) \<and> parseParams c p = Inr hd0 \<and>
       encodeHeader (hd0\<lparr>h_type := ''aes128gcm'', h_salt := Some (randomBytes c KEY_LENGTH)\<rparr>)
         = Inr hb \<and>
       determineRecordSize (p_rs p) ''aes128gcm'' = Inr rs \<and>
       deriveKeyAndNonce c ks
         (hd0\<lparr>h_type := ''aes128gcm'', h_salt := Some (randomBytes c KEY_LENGTH), h_rs := rs\<rparr>)
         MODE_ENCRYPT = Inr key"
  then have salt: "\<not> truthy (p_salt p)" and pp: "parseParams c p = Inr hd0"
    and hb: "encodeHeader (hd0\<lparr>h_type := ''aes128gcm'', h_salt := Some (randomBytes c KEY_LENGTH)\<rparr>)
               = Inr hb"
    and d: "determineRecordSize (p_rs p) ''aes128gcm'' = Inr rs"
    and k: "deriveKeyAndNonce c ks
         (hd0\<lparr>h_type := ''aes128gcm'', h_salt := Some (randomBytes c KEY_LENGTH), h_rs := rs\<rparr>)
         MODE_ENCRYPT = Inr key"
    by simp_all
  have ps: "PAD_SIZE ''aes128gcm'' = Some 2" by (simp add: PAD_SIZE_def)
  have rs: "int 2 < rs" using ps d by (rule determineRecordSize_above)
  have n: "6 \<le> length (kn_nonce key)"
    using deriveKeyAndNonce_lengths [OF assms(1) k] by simp
  have e: "encrypt c ks buffer p = encrypt_records c key rs 2 buffer pad hb"
    using encrypt_aes128gcm [OF salt pp hb d k, of buffer] assms(3) by simp
  from encrypt_records_trace [OF ps rs assms(4) n assms(2), of buffer hb]
  show "\<exists>n. (\<forall>k<n. spec_cursor rs 2 pad k \<le> int (length buffer)) \<and>
            int (length buffer) < spec_cursor rs 2 pad n \<and>
            (\<forall>k. \<not> isl (spec_record c key rs 2 buffer pad k)) \<and>
            encrypt c ks buffer p =
              (if spec_budget rs 2 pad n \<noteq> 0
               then Inl (UnableToPad (spec_budget rs 2 pad n))
               else Inr (hb @ concat (map (\<lambda>k. projr (spec_record c key rs 2 buffer pad k))
                                        [0..<n])))"
    unfolding e .
qed

lemma spec_one_record:
  assumes "\<forall>k<m. spec_cursor rs padSize pad k \<le> int len" and "int len < spec_cursor rs padSize pad m"
    and "int len < spec_cursor rs padSize pad 1"
  shows "m = 1"
proof -
  have "m \<noteq> 0" using assms(2) by (cases m) simp_all
  moreover have "\<not> 1 < m" using assms(1,3) by (metis not_le)
  ultimately show ?thesis by simp
qed

lemma demo_spec_record_0:
  assumes "0 \<le> pad" and "pad < 65536" and "spec_recordPad rs 2 pad = pad"
    and "int (length data) \<le> rs - 2 - pad"
  shows "spec_record demo_crypto demo_key rs 2 data pad 0
           = Inr (map (\<lambda>b. b + 1) (be_bytes 2 (nat pad) @ replicate (nat pad) 0 @ data)
                  @ replicate 16 7)"
proof -
  have m: "min (rs - 2 - pad) (int (length data)) = int (length data)" using assms(4) by simp
  have s: "spec_slice rs 2 data pad 0 = data"
    by (simp add: spec_slice_def assms(3) m slice_nonneg)
  have p: "pad < 2 ^ (8 * 2)" using assms(2) by simp
  have z: "(0::nat) < 256" by simp
  show ?thesis
    unfolding spec_record_def s
    using demo_record [OF z assms(1) p, of data]
    by (simp add: assms(3) replicate_11 replicate_16)
qed

theorem encrypt_padding_witness:
  "(\<forall>k m. length (hmac demo_crypto k m) = 32) \<and>
   (\<forall>k n p. length (snd (gcm_encrypt demo_crypto k n p)) = 16) \<and>
   spec_recordPad 10 2 3 = 3 \<and> spec_cursor 10 2 3 1 = 5 \<and> spec_budget 10 2 3 1 = 0 \<and>
   encrypt demo_crypto empty_keystore [1, 2, 3]
       (demo_params (Some ''BwcHBwcHBwcHBwcHBwcHBw'') (Number 10) (Number 3))
     = Inr ([1, 4, 1, 1, 1, 2, 3, 4] @ replicate 16 7) \<and>
   spec_recordPad 10 2 9 = 7 \<and> spec_cursor 10 2 9 1 = 1 \<and> spec_budget 10 2 9 1 = 2 \<and>
   encrypt demo_crypto empty_keystore []
       (demo_params (Some ''BwcHBwcHBwcHBwcHBwcHBw'') (Number 10) (Number 9))
     = Inl (UnableToPad 2) \<and>
   encrypt demo_crypto empty_keystore [1, 2, 3] (demo_params None Undefined (Number 3))
     = Inr ((replicate 16 7 @ [0, 0, 16, 0, 0]) @ [1, 4, 1, 1, 1, 2, 3, 4] @ replicate 16 7) \<and>
   parseInt (Number 1000000000000000000000) = Some 1 \<and>
   encrypt demo_crypto empty_keystore [5]
       (demo_params (Some ''BwcHBwcHBwcHBwcHBwcHBw'') (Number 10) (Number 1000000000000000000000))
     = Inr ([1, 2, 1, 6] @ replicate 16 7)"
proof -
  note hm = demo_hmac_length and tag = demo_tag_length
  let ?salt = "Some ''BwcHBwcHBwcHBwcHBwcHBw''"
  have rs: "determineRecordSize (Number 10) ''aesgcm'' = Inr 10"
    by (simp add: determineRecordSize_def parseInt_def PAD_SIZE_def)
  have t: "truthy (p_salt (demo_params ?salt (Number 10) x))" for x
    by (simp add: demo_params_def truthy_def)
  note pp = demo_parseParams [OF rs]
  note ps = demo_header_type [of 10]
  have k: "deriveKeyAndNonce demo_crypto empty_keystore (demo_header ''aesgcm'' 10) MODE_ENCRYPT
             = Inr demo_key"
    by (rule demo_derive_header) simp
  have r: "h_rs (demo_header ''aesgcm'' 10) = 10" by (simp add: demo_header_def)
  have rp3: "spec_recordPad 10 2 3 = 3" and rp9: "spec_recordPad 10 2 9 = 7"
    and rp1: "spec_recordPad 10 2 1 = 1" and rq3: "spec_recordPad 4096 2 3 = 3"
    by (simp_all add: spec_recordPad_def maxPad_def)
  have c3: "spec_cursor 10 2 3 1 = 5" and b3: "spec_budget 10 2 3 1 = 0"
    and c9: "spec_cursor 10 2 9 1 = 1" and b9: "spec_budget 10 2 9 1 = 2"
    and c1: "spec_cursor 10 2 1 1 = 7" and b1: "spec_budget 10 2 1 1 = 0"
    and d3: "spec_cursor 4096 2 3 1 = 4091" and e3: "spec_budget 4096 2 3 1 = 0"
    by (simp_all add: rp3 rp9 rp1 rq3)
  have z3: "replicate 3 (0::byte) = [0, 0, 0]" by (simp add: numeral_3_eq_3)
  have rec3: "spec_record demo_crypto demo_key 10 2 [1, 2, 3] 3 0
                = Inr ([1, 4, 1, 1, 1, 2, 3, 4] @ replicate 16 7)"
    using demo_spec_record_0 [of 3 10 "[1, 2, 3]"] by (simp add: rp3 be_bytes_2 z3)
  have rec1: "spec_record demo_crypto demo_key 10 2 [5] 1 0 = Inr ([1, 2, 1, 6] @ replicate 16 7)"
    using demo_spec_record_0 [of 1 10 "[5]"] by (simp add: rp1 be_bytes_2)
  have rec4: "spec_record demo_crypto demo_key 4096 2 [1, 2, 3] 3 0
                = Inr ([1, 4, 1, 1, 1, 2, 3, 4] @ replicate 16 7)"
    using demo_spec_record_0 [of 3 4096 "[1, 2, 3]"] by (simp add: rq3 be_bytes_2 z3)
  have p3: "(3::int) = (case parseInt (p_pad (demo_params ?salt (Number 10) (Number 3))) of
                          None \<Rightarrow> 0 | Some n \<Rightarrow> n)"
    and p9: "(9::int) = (case parseInt (p_pad (demo_params ?salt (Number 10) (Number 9))) of
                          None \<Rightarrow> 0 | Some n \<Rightarrow> n)"
    and q3: "(3::int) = (case parseInt (p_pad (demo_params None Undefined (Number 3))) of
                          None \<Rightarrow> 0 | Some n \<Rightarrow> n)"
    by (simp_all add: demo_params_def parseInt_def)
  note big = determineRecordSize_exponent(1)
  have p1: "(1::int) = (case parseInt (p_pad (demo_params ?salt (Number 10)
                          (Number 1000000000000000000000))) of None \<Rightarrow> 0 | Some n \<Rightarrow> n)"
    by (simp add: demo_params_def big)
  have a: "encrypt demo_crypto empty_keystore [1, 2, 3] (demo_params ?salt (Number 10) (Number 3))
             = Inr ([1, 4, 1, 1, 1, 2, 3, 4] @ replicate 16 7)"
  proof -
    from encrypt_padding [OF hm tag p3, of empty_keystore "[1, 2, 3]", THEN conjunct1, rule_format,
           of "demo_header ''aesgcm'' 10" 2 demo_key] t pp ps k
    obtain m where m: "\<forall>k<m. spec_cursor 10 2 3 k \<le> int (length [1, 2, 3 :: byte])"
       "int (length [1, 2, 3 :: byte]) < spec_cursor 10 2 3 m"
       "encrypt demo_crypto empty_keystore [1, 2, 3] (demo_params ?salt (Number 10) (Number 3)) =
          (if spec_budget 10 2 3 m \<noteq> 0 then Inl (UnableToPad (spec_budget 10 2 3 m))
           else Inr (concat (map (\<lambda>k. projr (spec_record demo_crypto demo_key 10 2 [1, 2, 3] 3 k))
                               [0..<m])))"
      unfolding r by auto
    have "m = 1" using m(1,2) c3 by (intro spec_one_record [of m 10 2 3 3]) simp_all
    then show ?thesis using m(3) b3 rec3 by simp
  qed
  have b: "encrypt demo_crypto empty_keystore [] (demo_params ?salt (Number 10) (Number 9))
             = Inl (UnableToPad 2)"
  proof -
    from encrypt_padding [OF hm tag p9, of empty_keystore "[]", THEN conjunct1, rule_format,
           of "demo_header ''aesgcm'' 10" 2 demo_key] t pp ps k
    obtain m where m: "\<forall>k<m. spec_cursor 10 2 9 k \<le> int (length ([] :: buffer))"
       "int (length ([] :: buffer)) < spec_cursor 10 2 9 m"
       "encrypt demo_crypto empty_keystore [] (demo_params ?salt (Number 10) (Number 9)) =
          (if spec_budget 10 2 9 m \<noteq> 0 then Inl (UnableToPad (spec_budget 10 2 9 m))
           else Inr (concat (map (\<lambda>k. projr (spec_record demo_crypto demo_key 10 2 [] 9 k))
                               [0..<m])))"
      unfolding r by auto
    have "m = 1" using m(1,2) c9 by (intro spec_one_record [of m 10 2 9 0]) simp_all
    then show ?thesis using m(3) b9 by simp
  qed
  have d: "encrypt demo_crypto empty_keystore [5]
             (demo_params ?salt (Number 10) (Number 1000000000000000000000))
             = Inr ([1, 2, 1, 6] @ replicate 16 7)"
  proof -
    from encrypt_padding [OF hm tag p1, of empty_keystore "[5]", THEN conjunct1, rule_format,
           of "demo_header ''aesgcm'' 10" 2 demo_key] t pp ps k
    obtain m where m: "\<forall>k<m. spec_cursor 10 2 1 k \<le> int (length [5 :: byte])"
       "int (length [5 :: byte]) < spec_cursor 10 2 1 m"
       "encrypt demo_crypto empty_keystore [5]
            (demo_params ?salt (Number 10) (Number 1000000000000000000000)) =
          (if spec_budget 10 2 1 m \<noteq> 0 then Inl (UnableToPad (spec_budget 10 2 1 m))
           else Inr (concat (map (\<lambda>k. projr (spec_record demo_crypto demo_key 10 2 [5] 1 k))
                               [0..<m])))"
      unfolding r by auto
    have "m = 1" using m(1,2) c1 by (intro spec_one_record [of m 10 2 1 1]) simp_all
    then show ?thesis using m(3) b1 rec1 by simp
  qed
  have c: "encrypt demo_crypto empty_keystore [1, 2, 3] (demo_params None Undefined (Number 3))
             = Inr ((replicate 16 7 @ [0, 0, 16, 0, 0]) @ [1, 4, 1, 1, 1, 2, 3, 4] @ replicate 16 7)"
  proof -
    let ?p = "demo_params None Undefined (Number 3)"
    let ?hd0 = "(demo_header ''aesgcm'' 4096)\<lparr>h_salt := None\<rparr>"
    have ns: "\<not> truthy (p_salt ?p)" by (simp add: demo_params_def truthy_def)
    have h: "?hd0\<lparr>h_type := ''aes128gcm'', h_salt := Some (randomBytes demo_crypto KEY_LENGTH)\<rparr>
               = demo_header ''aes128gcm'' 4096"
      and h': "?hd0\<lparr>h_type := ''aes128gcm'', h_salt := Some (randomBytes demo_crypto KEY_LENGTH),
                 h_rs := 4096\<rparr> = demo_header ''aes128gcm'' 4096"
      by (simp_all add: demo_header_def KEY_LENGTH_def)
    have eh: "encodeHeader (?hd0\<lparr>h_type := ''aes128gcm'',
                 h_salt := Some (randomBytes demo_crypto KEY_LENGTH)\<rparr>)
               = Inr (replicate 16 7 @ [0, 0, 16, 0, 0])"
      unfolding h by (rule demo_encodeHeader)
    have dr: "determineRecordSize (p_rs ?p) ''aes128gcm'' = Inr 4096"
      by (simp add: determineRecordSize_def parseInt_def demo_params_def)
    have dk: "deriveKeyAndNonce demo_crypto empty_keystore
               (?hd0\<lparr>h_type := ''aes128gcm'', h_salt := Some (randomBytes demo_crypto KEY_LENGTH),
                 h_rs := 4096\<rparr>) MODE_ENCRYPT = Inr demo_key"
      unfolding h' by (rule demo_derive_header) simp
    from encrypt_padding [OF hm tag q3, of empty_keystore "[1, 2, 3]", THEN conjunct2, rule_format,
           of ?hd0 "replicate 16 7 @ [0, 0, 16, 0, 0]" 4096 demo_key]
      ns demo_parseParams_nosalt [of "Number 3"] eh dr dk
    obtain m where m: "\<forall>k<m. spec_cursor 4096 2 3 k \<le> int (length [1, 2, 3 :: byte])"
       "int (length [1, 2, 3 :: byte]) < spec_cursor 4096 2 3 m"
       "encrypt demo_crypto empty_keystore [1, 2, 3] ?p =
          (if spec_budget 4096 2 3 m \<noteq> 0 then Inl (UnableToPad (spec_budget 4096 2 3 m))
           else Inr ((replicate 16 7 @ [0, 0, 16, 0, 0]) @
                     concat (map (\<lambda>k. projr (spec_record demo_crypto demo_key 4096 2 [1, 2, 3] 3 k))
                               [0..<m])))"
      by auto
    have "m = 1" using m(1,2) d3 by (intro spec_one_record [of m 4096 2 3 3]) simp_all
    then show ?thesis using m(3) e3 rec4 by simp
  qed
  show ?thesis
    using hm tag rp3 c3 b3 a rp9 c9 b9 b c big d by (intro conjI)
qed

end
